theory Spec2Isabelle
  imports Complex_Main "HOL-Library.Word"
begin

section \<open>Planner buffers of planner.c\<close>

text \<open>
  The planner keeps its blocks in the array \<^verbatim>\<open>mb.bf[PLANNER_BUFFER_POOL_SIZE]\<close>, linked
  into a ring through the \<^verbatim>\<open>nx\<close> and \<^verbatim>\<open>pv\<close> pointers of every block, and three pointers
  \<^verbatim>\<open>mb.w\<close>, \<^verbatim>\<open>mb.q\<close>, \<^verbatim>\<open>mb.r\<close> into that array. A pointer to a block is modelled by the
  index of the block in the array; a function of the source that may return the null
  pointer returns an \<open>option\<close>.

  The header planner.h is not among the sources. What planner.c needs from it is taken
  as follows.
  \<^item> \<^verbatim>\<open>PLANNER_BUFFER_POOL_SIZE\<close> is a parameter \<open>N\<close> of the model. The counter
    \<^verbatim>\<open>mb.buffers_available\<close> and the loop counter of \<^verbatim>\<open>mp_init_buffers\<close> are \<^verbatim>\<open>uint8_t\<close>,
    so the model covers \<open>0 < N\<close> and \<open>N \<le> 255\<close>.
  \<^item> The enumerations are datatypes. \<^verbatim>\<open>memset\<close> writes zero bytes, and the source takes a
    zeroed block to be empty (\<^verbatim>\<open>mp_init_buffers\<close> zeroes the pool and
    \<^verbatim>\<open>mp_get_write_buffer\<close> then tests for \<^verbatim>\<open>MP_BUFFER_EMPTY\<close>; \<^verbatim>\<open>mp_free_run_buffer\<close>
    is commented "EMPTY current run buf"), so the first constructor of every
    enumeration is the value zero.
  \<^item> Of the fields of \<^verbatim>\<open>mpBuf_t\<close> the model has those that planner.c reads or writes.
    \<^verbatim>\<open>value_vector\<close> is the source's alias of \<^verbatim>\<open>gm.target\<close>, \<^verbatim>\<open>flag_vector\<close> of \<^verbatim>\<open>unit\<close>,
    both arrays of \<^verbatim>\<open>AXES\<close> floats inside the block; \<^verbatim>\<open>move_time\<close> is \<^verbatim>\<open>gm.move_time\<close>.
  \<^item> A \<^verbatim>\<open>float\<close> is a value of a type \<open>'f\<close> with a zero. planner.c only stores and
    copies floats, so nothing of their arithmetic is needed here.
\<close>

datatype mpBufferState =
  MP_BUFFER_EMPTY | MP_BUFFER_LOADING | MP_BUFFER_QUEUED | MP_BUFFER_PENDING | MP_BUFFER_RUNNING

datatype moveType = MOVE_TYPE_NULL | MOVE_TYPE_ALINE | MOVE_TYPE_DWELL | MOVE_TYPE_COMMAND

datatype moveState = MOVE_OFF | MOVE_NEW | MOVE_RUN

text \<open>
  \<^verbatim>\<open>bf_func\<close> points to one of the two static execution routines of planner.c, or is
  null. \<^verbatim>\<open>cm_func\<close> points to a function of the canonical machine: \<open>'c\<close> is the type of
  these function addresses, \<open>None\<close> the null pointer.
\<close>

datatype bfCallback = BF_FUNC_NULL | EXEC_DWELL | EXEC_COMMAND

definition AXES :: nat where
  "AXES = 6"

record ('f, 'c) mpBuf =
  pv :: nat
  nx :: nat
  bf_func :: bfCallback
  cm_func :: "'c option"
  buffer_state :: mpBufferState
  move_type :: moveType
  move_state :: moveState
  value_vector :: "'f list"
  flag_vector :: "'f list"
  move_time :: 'f

record ('f, 'c) mpBufferPool =
  buffers_available :: "8 word"
  w :: nat
  q :: nat
  r :: nat
  bf :: "('f, 'c) mpBuf list"

text \<open>\<^verbatim>\<open>#define _bump(a) ((a < PLANNER_BUFFER_POOL_SIZE - 1) ? a + 1 : 0)\<close>\<close>

definition bump :: "nat \<Rightarrow> nat \<Rightarrow> nat" where
  "bump N a = (if a < N - 1 then a + 1 else 0)"

text \<open>
  \<open>mpBuf_zero\<close> is a block after \<^verbatim>\<open>memset(bf, 0, sizeof(mpBuf_t))\<close>. Its two links are
  null pointers (written as index 0 here); the source never follows them: every
  \<^verbatim>\<open>memset\<close> of a block is followed by the assignment of both links.
\<close>

definition mpBuf_zero :: "('f::zero, 'c) mpBuf" where
  "mpBuf_zero =
     \<lparr>pv = 0, nx = 0, bf_func = BF_FUNC_NULL, cm_func = None,
      buffer_state = MP_BUFFER_EMPTY, move_type = MOVE_TYPE_NULL, move_state = MOVE_OFF,
      value_vector = replicate AXES 0, flag_vector = replicate AXES 0, move_time = 0\<rparr>"

text \<open>\<^verbatim>\<open>mp_clear_buffer\<close> saves the two links, zeroes the block and restores the links.\<close>

definition mp_clear_buffer :: "('f::zero, 'c) mpBuf \<Rightarrow> ('f, 'c) mpBuf" where
  "mp_clear_buffer b =
     (let nxp = nx b; pvp = pv b
      in mpBuf_zero\<lparr>nx := nxp, pv := pvp\<rparr>)"

text \<open>
  \<^verbatim>\<open>mp_init_buffers\<close>: the pool is zeroed, the three pointers are set to block 0, and the
  loop links block \<open>i\<close> forward to \<open>_bump(i)\<close> and back to the block of the iteration
  before (block \<open>N - 1\<close> for the first one). \<open>init_links\<close> is one iteration of that loop
  on the pair of the local \<^verbatim>\<open>pv\<close> and the array.
\<close>

definition init_links ::
  "nat \<Rightarrow> nat \<times> ('f, 'c) mpBuf list \<Rightarrow> nat \<Rightarrow> nat \<times> ('f, 'c) mpBuf list" where
  "init_links N st i =
     (i, (snd st)[i := (snd st ! i)\<lparr>nx := bump N i, pv := fst st\<rparr>])"

definition mp_init_buffers :: "nat \<Rightarrow> ('f::zero, 'c) mpBufferPool" where
  "mp_init_buffers N =
     \<lparr>buffers_available = of_nat N, w = 0, q = 0, r = 0,
      bf = snd (foldl (init_links N) (N - 1, replicate N mpBuf_zero) [0..<N])\<rparr>"

definition mp_get_planner_buffers_available :: "('f, 'c) mpBufferPool \<Rightarrow> 8 word" where
  "mp_get_planner_buffers_available s = buffers_available s"

text \<open>
  \<^verbatim>\<open>mp_get_write_buffer\<close> returns the pointer \<^verbatim>\<open>w\<close> (the old \<^verbatim>\<open>mb.w\<close>) or 0. The counter is
  a \<^verbatim>\<open>uint8_t\<close>: \<open>- 1\<close> on \<open>8 word\<close> wraps as the C decrement does.
\<close>

definition mp_get_write_buffer ::
  "('f::zero, 'c) mpBufferPool \<Rightarrow> nat option \<times> ('f, 'c) mpBufferPool" where
  "mp_get_write_buffer s =
     (if buffer_state (bf s ! w s) = MP_BUFFER_EMPTY then
        let h = w s;
            nxp = nx (bf s ! w s);
            pvp = pv (bf s ! w s);
            b = mpBuf_zero\<lparr>nx := nxp, pv := pvp, buffer_state := MP_BUFFER_LOADING\<rparr>
        in (Some h, s\<lparr>bf := (bf s)[h := b],
                       buffers_available := buffers_available s - 1,
                       w := nx b\<rparr>)
      else (None, s))"

definition mp_unget_write_buffer :: "('f, 'c) mpBufferPool \<Rightarrow> ('f, 'c) mpBufferPool" where
  "mp_unget_write_buffer s =
     (let h = pv (bf s ! w s)
      in s\<lparr>w := h,
           bf := (bf s)[h := (bf s ! h)\<lparr>buffer_state := MP_BUFFER_EMPTY\<rparr>],
           buffers_available := buffers_available s + 1\<rparr>)"

text \<open>
  \<^verbatim>\<open>mp_commit_write_buffer\<close> ends with the call \<^verbatim>\<open>st_request_exec_move()\<close> into the stepper
  (stepper.c is not among the sources). The call is a parameter that acts on the state
  \<open>'e\<close> of the collaborators. The stepper may run the queued block at once; whatever it
  then does to the pool it does through \<^verbatim>\<open>mp_get_run_buffer\<close> and \<^verbatim>\<open>mp_free_run_buffer\<close>,
  after the three assignments of the commit, so in the model these are later steps.
\<close>

definition mp_commit_write_buffer ::
  "('e \<Rightarrow> 'e) \<Rightarrow> moveType \<Rightarrow> ('f, 'c) mpBufferPool \<Rightarrow> 'e \<Rightarrow> ('f, 'c) mpBufferPool \<times> 'e" where
  "mp_commit_write_buffer st_request_exec_move mt s e =
     (s\<lparr>bf := (bf s)[q s := (bf s ! q s)\<lparr>move_type := mt, move_state := MOVE_NEW,
                                         buffer_state := MP_BUFFER_QUEUED\<rparr>],
        q := nx (bf s ! q s)\<rparr>,
      st_request_exec_move e)"

definition mp_get_run_buffer ::
  "('f, 'c) mpBufferPool \<Rightarrow> nat option \<times> ('f, 'c) mpBufferPool" where
  "mp_get_run_buffer s =
     (let s1 = (if buffer_state (bf s ! r s) = MP_BUFFER_QUEUED \<or>
                   buffer_state (bf s ! r s) = MP_BUFFER_PENDING
                then s\<lparr>bf := (bf s)[r s := (bf s ! r s)\<lparr>buffer_state := MP_BUFFER_RUNNING\<rparr>]\<rparr>
                else s)
      in if buffer_state (bf s1 ! r s1) = MP_BUFFER_RUNNING then (Some (r s1), s1)
         else (None, s1))"

definition mp_free_run_buffer ::
  "('f::zero, 'c) mpBufferPool \<Rightarrow> bool \<times> ('f, 'c) mpBufferPool" where
  "mp_free_run_buffer s =
     (let s1 = s\<lparr>bf := (bf s)[r s := mp_clear_buffer (bf s ! r s)]\<rparr>;
          s2 = s1\<lparr>r := nx (bf s1 ! r s1)\<rparr>;
          s3 = (if buffer_state (bf s2 ! r s2) = MP_BUFFER_QUEUED
                then s2\<lparr>bf := (bf s2)[r s2 := (bf s2 ! r s2)\<lparr>buffer_state := MP_BUFFER_PENDING\<rparr>]\<rparr>
                else s2);
          s4 = s3\<lparr>buffers_available := buffers_available s3 + 1\<rparr>
      in (w s4 = r s4, s4))"


subsection \<open>The ring, the counter and the reachable pools\<close>

text \<open>
  \<open>ring_ok N s\<close>: the pool has its \<open>N\<close> blocks, the three pointers point into the array,
  and the links are those that \<^verbatim>\<open>mp_init_buffers\<close> sets. \<open>ring_pv N i\<close> is the block before
  block \<open>i\<close>.
\<close>

definition ring_pv :: "nat \<Rightarrow> nat \<Rightarrow> nat" where
  "ring_pv N i = (if i = 0 then N - 1 else i - 1)"

definition ring_ok :: "nat \<Rightarrow> ('f, 'c) mpBufferPool \<Rightarrow> bool" where
  "ring_ok N s \<longleftrightarrow>
     length (bf s) = N \<and> w s < N \<and> q s < N \<and> r s < N \<and>
     (\<forall>i<N. nx (bf s ! i) = bump N i \<and> pv (bf s ! i) = ring_pv N i)"

text \<open>The blocks that are not free: Loading, Queued, Pending or Running.\<close>

definition active :: "('f, 'c) mpBuf \<Rightarrow> bool" where
  "active b \<longleftrightarrow>
     buffer_state b = MP_BUFFER_LOADING \<or> buffer_state b = MP_BUFFER_QUEUED \<or>
     buffer_state b = MP_BUFFER_PENDING \<or> buffer_state b = MP_BUFFER_RUNNING"

definition count_active :: "('f, 'c) mpBuf list \<Rightarrow> nat" where
  "count_active xs = length (filter active xs)"

text \<open>
  \<open>layout N c g s\<close>: walking the ring from the run pointer, the first \<open>c\<close> blocks are
  committed (Queued, Pending or Running), the next \<open>g\<close> blocks are Loading, the others
  are Empty; \<^verbatim>\<open>mb.q\<close> is \<open>c\<close> blocks after \<^verbatim>\<open>mb.r\<close>, and \<^verbatim>\<open>mb.w\<close> is \<open>g\<close> blocks after \<^verbatim>\<open>mb.q\<close>.
\<close>

definition layout :: "nat \<Rightarrow> nat \<Rightarrow> nat \<Rightarrow> ('f, 'c) mpBufferPool \<Rightarrow> bool" where
  "layout N c g s \<longleftrightarrow>
     c + g \<le> N \<and> q s = (r s + c) mod N \<and> w s = (r s + c + g) mod N \<and>
     (\<forall>k<N. buffer_state (bf s ! ((r s + k) mod N)) \<in>
        (if k < c then {MP_BUFFER_QUEUED, MP_BUFFER_PENDING, MP_BUFFER_RUNNING}
         else if k < c + g then {MP_BUFFER_LOADING} else {MP_BUFFER_EMPTY}))"

definition pool_inv :: "nat \<Rightarrow> nat \<Rightarrow> ('f, 'c) mpBufferPool \<Rightarrow> bool" where
  "pool_inv N g s \<longleftrightarrow>
     ring_ok N s \<and> (\<exists>c\<in>{0..N}. layout N c g s) \<and>
     unat (buffers_available s) + count_active (bf s) = N"

text \<open>
  The pools that the five queue operations reach from \<^verbatim>\<open>mp_init_buffers\<close>. The number \<open>g\<close>
  counts the write buffers that were handed out and neither committed nor given back.
  Between getting a write buffer and committing it the producer fills the block in
  (as \<^verbatim>\<open>mp_queue_command\<close> and \<^verbatim>\<open>mp_dwell\<close> do): the last rule is any write to a Loading
  block that leaves its links and its state alone.
  The preconditions of the operations:
  \<^item> \<^verbatim>\<open>mp_unget_write_buffer\<close> and \<^verbatim>\<open>mp_commit_write_buffer\<close> are called for a write buffer
    that was handed out and is still uncommitted (\<open>g\<close> is not 0);
  \<^item> \<^verbatim>\<open>mp_free_run_buffer\<close> is called for a block that \<^verbatim>\<open>mp_get_run_buffer\<close> hands out:
    the block at the run pointer is Queued, Pending or Running.
\<close>

inductive reachable :: "nat \<Rightarrow> nat \<Rightarrow> ('f::zero, 'c) mpBufferPool \<Rightarrow> bool" for N :: nat where
  reach_init: "reachable N 0 (mp_init_buffers N)"
| reach_get: "reachable N g s \<Longrightarrow> mp_get_write_buffer s = (Some h, s') \<Longrightarrow> reachable N (Suc g) s'"
| reach_get_none: "reachable N g s \<Longrightarrow> mp_get_write_buffer s = (None, s') \<Longrightarrow> reachable N g s'"
| reach_unget: "reachable N (Suc g) s \<Longrightarrow> reachable N g (mp_unget_write_buffer s)"
| reach_commit:
    "reachable N (Suc g) s \<Longrightarrow> reachable N g (fst (mp_commit_write_buffer (\<lambda>e. e) mt s ()))"
| reach_get_run: "reachable N g s \<Longrightarrow> reachable N g (snd (mp_get_run_buffer s))"
| reach_free_run:
    "reachable N g s \<Longrightarrow> fst (mp_get_run_buffer s) = Some h \<Longrightarrow>
     reachable N g (snd (mp_free_run_buffer s))"
| reach_populate:
    "reachable N g s \<Longrightarrow> i < length (bf s) \<Longrightarrow>
     buffer_state (bf s ! i) = MP_BUFFER_LOADING \<Longrightarrow>
     pv b = pv (bf s ! i) \<Longrightarrow> nx b = nx (bf s ! i) \<Longrightarrow> buffer_state b = MP_BUFFER_LOADING \<Longrightarrow>
     reachable N g (s\<lparr>bf := (bf s)[i := b]\<rparr>)"

text \<open>
  \<open>k\<close> calls of \<^verbatim>\<open>mp_get_write_buffer\<close> in a row that all return a block, with the pointers
  they return, and \<open>k\<close> calls of \<^verbatim>\<open>mp_unget_write_buffer\<close> in a row, with the blocks they
  give back.
\<close>

fun get_write_buffers ::
  "nat \<Rightarrow> ('f::zero, 'c) mpBufferPool \<Rightarrow> (nat list \<times> ('f, 'c) mpBufferPool) option" where
  "get_write_buffers 0 s = Some ([], s)"
| "get_write_buffers (Suc k) s =
     (case mp_get_write_buffer s of
        (None, s1) \<Rightarrow> None
      | (Some h, s1) \<Rightarrow>
          (case get_write_buffers k s1 of
             None \<Rightarrow> None
           | Some (hs, s2) \<Rightarrow> Some (h # hs, s2)))"

fun unget_write_buffers ::
  "nat \<Rightarrow> ('f, 'c) mpBufferPool \<Rightarrow> nat list \<times> ('f, 'c) mpBufferPool" where
  "unget_write_buffers 0 s = ([], s)"
| "unget_write_buffers (Suc k) s =
     (let s1 = mp_unget_write_buffer s;
          (hs, s2) = unget_write_buffers k s1
      in (w s1 # hs, s2))"

text \<open>What the queue operations read of a pool: the pointers, the counter, and of every
  block its links and its state.\<close>

definition ctl ::
  "('f, 'c) mpBufferPool \<Rightarrow> nat \<times> nat \<times> nat \<times> 8 word \<times> (nat \<times> nat \<times> mpBufferState) list" where
  "ctl s = (w s, q s, r s, buffers_available s,
            map (\<lambda>b. (pv b, nx b, buffer_state b)) (bf s))"

section \<open>Commands, dwells and positions of planner.c\<close>

text \<open>
  The functions of other files that planner.c calls are not among the sources. They are
  parameters of the model, collected in one record: each acts on the state \<open>'e\<close> of the
  collaborators (canonical machine, stepper, encoder), which is disjoint from the
  planner's own variables.
  \<^item> \<open>cm_hard_alarm\<close> takes the status code and returns a status.
  \<^item> \<open>cm_call f values flags\<close> is the call through a stored \<^verbatim>\<open>cm_func\<close> pointer \<open>f\<close> with
    the two vectors it is given.
  \<^item> \<open>ik_kinematics\<close> maps a position vector to the array of steps per motor.
  \<^item> \<open>en_set_encoder_steps motor steps\<close> writes the encoder register of a motor.
\<close>

datatype stat = STAT_OK | STAT_BUFFER_FULL_FATAL | STAT_OTHER nat

record ('f, 'c, 'e) collaborators =
  cm_hard_alarm :: "stat \<Rightarrow> 'e \<Rightarrow> stat \<times> 'e"
  st_request_exec_move :: "'e \<Rightarrow> 'e"
  cm_cycle_end :: "'e \<Rightarrow> 'e"
  cm_call :: "'c \<Rightarrow> 'f list \<Rightarrow> 'f list \<Rightarrow> 'e \<Rightarrow> 'e"
  ik_kinematics :: "'f list \<Rightarrow> 'f list"
  en_set_encoder_steps :: "nat \<Rightarrow> 'f \<Rightarrow> 'e \<Rightarrow> 'e"

text \<open>
  The variables of the planner: the pool \<^verbatim>\<open>mb\<close>, the runtime singleton \<^verbatim>\<open>mr\<close> (the fields
  that planner.c writes), the position of \<^verbatim>\<open>mm\<close>, and \<^verbatim>\<open>st_pre.mot[motor].corrected_steps\<close>
  of the stepper, which planner.c writes directly. \<open>mem\<close> is the memory of the callers,
  by address: \<^verbatim>\<open>mp_queue_command\<close> receives two pointers into it.
\<close>

record 'f mpMoveRuntimeSingleton =
  position :: "'f list"
  target_steps :: "'f list"
  position_steps :: "'f list"
  commanded_steps :: "'f list"
  following_error :: "'f list"

record ('f, 'c, 'e) planner =
  mb :: "('f, 'c) mpBufferPool"
  mr :: "'f mpMoveRuntimeSingleton"
  mm_position :: "'f list"
  corrected_steps :: "int list"
  mem :: "nat \<Rightarrow> 'f"
  ext :: 'e

definition mp_set_planner_position ::
  "nat \<Rightarrow> 'f \<Rightarrow> ('f, 'c, 'e) planner \<Rightarrow> ('f, 'c, 'e) planner" where
  "mp_set_planner_position axis p m = m\<lparr>mm_position := (mm_position m)[axis := p]\<rparr>"

definition mp_set_runtime_position ::
  "nat \<Rightarrow> 'f \<Rightarrow> ('f, 'c, 'e) planner \<Rightarrow> ('f, 'c, 'e) planner" where
  "mp_set_runtime_position axis p m = m\<lparr>mr := (mr m)\<lparr>position := (position (mr m))[axis := p]\<rparr>\<rparr>"

text \<open>
  \<^verbatim>\<open>mp_set_steps_to_runtime_position\<close>: \<open>set_steps_motor\<close> is the body of the loop over the
  motors, \<open>sp\<close> the local array \<^verbatim>\<open>step_position\<close> that \<^verbatim>\<open>ik_kinematics\<close> has filled.
  \<^verbatim>\<open>MOTORS\<close> is a parameter (the loop counter is a \<^verbatim>\<open>uint8_t\<close>, so \<open>MOTORS \<le> 255\<close>).
\<close>

definition set_steps_motor ::
  "('f::zero, 'c, 'e) collaborators \<Rightarrow> 'f list \<Rightarrow> ('f, 'c, 'e) planner \<Rightarrow> nat \<Rightarrow>
   ('f, 'c, 'e) planner" where
  "set_steps_motor X sp m motor =
     m\<lparr>mr := (mr m)\<lparr>target_steps := (target_steps (mr m))[motor := sp ! motor],
                    position_steps := (position_steps (mr m))[motor := sp ! motor],
                    commanded_steps := (commanded_steps (mr m))[motor := sp ! motor],
                    following_error := (following_error (mr m))[motor := 0]\<rparr>,
       ext := en_set_encoder_steps X motor (sp ! motor) (ext m),
       corrected_steps := (corrected_steps m)[motor := 0]\<rparr>"

definition mp_set_steps_to_runtime_position ::
  "('f::zero, 'c, 'e) collaborators \<Rightarrow> nat \<Rightarrow> ('f, 'c, 'e) planner \<Rightarrow> ('f, 'c, 'e) planner" where
  "mp_set_steps_to_runtime_position X MOTORS m =
     (let step_position = ik_kinematics X (position (mr m))
      in foldl (set_steps_motor X step_position) m [0..<MOTORS])"

text \<open>
  \<^verbatim>\<open>mp_queue_command\<close>: \<open>value\<close> and \<open>flag\<close> are the addresses of the caller's arrays, read
  element by element in the loop over the axes (\<open>copy_axis\<close> is the body of the loop).
\<close>

definition copy_axis ::
  "(nat \<Rightarrow> 'f) \<Rightarrow> nat \<Rightarrow> nat \<Rightarrow> ('f, 'c) mpBuf \<Rightarrow> nat \<Rightarrow> ('f, 'c) mpBuf" where
  "copy_axis memory value flag b axis =
     b\<lparr>value_vector := (value_vector b)[axis := memory (value + axis)],
       flag_vector := (flag_vector b)[axis := memory (flag + axis)]\<rparr>"

definition mp_queue_command ::
  "('f::zero, 'c, 'e) collaborators \<Rightarrow> 'c \<Rightarrow> nat \<Rightarrow> nat \<Rightarrow> ('f, 'c, 'e) planner \<Rightarrow>
   ('f, 'c, 'e) planner" where
  "mp_queue_command X cm_exec value flag m =
     (case mp_get_write_buffer (mb m) of
        (None, s) \<Rightarrow> m\<lparr>mb := s, ext := snd (cm_hard_alarm X STAT_BUFFER_FULL_FATAL (ext m))\<rparr>
      | (Some h, s) \<Rightarrow>
          let b0 = (bf s ! h)\<lparr>move_type := MOVE_TYPE_COMMAND, bf_func := EXEC_COMMAND,
                              cm_func := Some cm_exec\<rparr>;
              b1 = foldl (copy_axis (mem m) value flag) b0 [0..<AXES];
              (s', e') = mp_commit_write_buffer (st_request_exec_move X) MOVE_TYPE_COMMAND
                           (s\<lparr>bf := (bf s)[h := b1]\<rparr>) (ext m)
          in m\<lparr>mb := s', ext := e'\<rparr>)"

text \<open>
  \<^verbatim>\<open>mp_runtime_command\<close> calls through \<^verbatim>\<open>bf->cm_func\<close>; a call through a null pointer has
  no defined result, which is \<open>None\<close> here.
\<close>

definition mp_runtime_command ::
  "('f::zero, 'c, 'e) collaborators \<Rightarrow> nat \<Rightarrow> ('f, 'c, 'e) planner \<Rightarrow>
   (stat \<times> ('f, 'c, 'e) planner) option" where
  "mp_runtime_command X h m =
     (case cm_func (bf (mb m) ! h) of
        None \<Rightarrow> None
      | Some f \<Rightarrow>
          let e1 = cm_call X f (value_vector (bf (mb m) ! h)) (flag_vector (bf (mb m) ! h)) (ext m);
              (emptied, s') = mp_free_run_buffer (mb m);
              e2 = (if emptied then cm_cycle_end X e1 else e1)
          in Some (STAT_OK, m\<lparr>mb := s', ext := e2\<rparr>))"

definition mp_dwell ::
  "('f::zero, 'c, 'e) collaborators \<Rightarrow> 'f \<Rightarrow> ('f, 'c, 'e) planner \<Rightarrow>
   stat \<times> ('f, 'c, 'e) planner" where
  "mp_dwell X seconds m =
     (case mp_get_write_buffer (mb m) of
        (None, s) \<Rightarrow>
          (let (st, e) = cm_hard_alarm X STAT_BUFFER_FULL_FATAL (ext m)
           in (st, m\<lparr>mb := s, ext := e\<rparr>))
      | (Some h, s) \<Rightarrow>
          let b = (bf s ! h)\<lparr>bf_func := EXEC_DWELL, move_time := seconds, move_state := MOVE_NEW\<rparr>;
              (s', e') = mp_commit_write_buffer (st_request_exec_move X) MOVE_TYPE_DWELL
                           (s\<lparr>bf := (bf s)[h := b]\<rparr>) (ext m)
          in (STAT_OK, m\<lparr>mb := s', ext := e'\<rparr>))"

section \<open>Axes and motors of axis.c\<close>

text \<open>
  \<^verbatim>\<open>motor_map\<close> is an array of \<^verbatim>\<open>AXES\<close> ints with six initialisers. \<^verbatim>\<open>motor_get_axis\<close> (motor.c
  is not among the sources) is a parameter: the axis that a motor is configured for.
  \<open>map_axis\<close> is the inner loop of \<^verbatim>\<open>axis_map_motors\<close> over the motors, left at the first
  match.
\<close>

definition motor_map_init :: "int list" where
  "motor_map_init = [-1, -1, -1, -1, -1, -1]"

definition axis_get_motor :: "int list \<Rightarrow> nat \<Rightarrow> int" where
  "axis_get_motor motor_map axis = motor_map ! axis"

fun map_axis :: "(nat \<Rightarrow> int) \<Rightarrow> nat \<Rightarrow> nat list \<Rightarrow> int list \<Rightarrow> int list" where
  "map_axis motor_get_axis axis [] motor_map = motor_map"
| "map_axis motor_get_axis axis (motor # motors) motor_map =
     (if motor_get_axis motor = int axis then motor_map[axis := int motor]
      else map_axis motor_get_axis axis motors motor_map)"

definition axis_map_motors :: "nat \<Rightarrow> (nat \<Rightarrow> int) \<Rightarrow> int list \<Rightarrow> int list" where
  "axis_map_motors MOTORS motor_get_axis motor_map =
     foldl (\<lambda>mm axis. map_axis motor_get_axis axis [0..<MOTORS] mm) motor_map [0..<AXES]"

text \<open>
  The getters that go through \<^verbatim>\<open>axis_get_motor\<close>. \<open>velocity_max\<close> is the array of the
  \<^verbatim>\<open>velocity_max\<close> fields of \<^verbatim>\<open>axes[MOTORS]\<close>; the multiplication by \<^verbatim>\<open>VELOCITY_MULTIPLIER\<close>,
  the test \<^verbatim>\<open>fp_ZERO\<close> and \<^verbatim>\<open>motor_is_enabled\<close> are parameters.
\<close>

definition axis_get_velocity_max ::
  "('f \<Rightarrow> 'f) \<Rightarrow> 'f list \<Rightarrow> int list \<Rightarrow> nat \<Rightarrow> 'f::zero" where
  "axis_get_velocity_max scaled velocity_max motor_map axis =
     (let motor = axis_get_motor motor_map axis
      in if motor = -1 then 0 else scaled (velocity_max ! nat motor))"

definition axis_is_enabled ::
  "(int \<Rightarrow> bool) \<Rightarrow> ('f::zero \<Rightarrow> bool) \<Rightarrow> ('f \<Rightarrow> 'f) \<Rightarrow> 'f list \<Rightarrow> int list \<Rightarrow> nat \<Rightarrow> bool" where
  "axis_is_enabled motor_is_enabled fp_ZERO scaled velocity_max motor_map axis =
     (let motor = axis_get_motor motor_map axis
      in motor \<noteq> -1 \<and> motor_is_enabled motor \<and>
         \<not> fp_ZERO (axis_get_velocity_max scaled velocity_max motor_map axis))"


subsection \<open>The length of a vector\<close>


























section \<open>A run on a pool of four blocks\<close>

text \<open>
  Two write buffers are handed out and committed, then the first is run: block 0 is
  Running, block 1 Queued behind it, blocks 2 and 3 Empty. In \<open>run_pool_one\<close> only one
  buffer was queued before it is run.
\<close>

definition run_pool_0 :: "(int, nat) mpBufferPool" where
  "run_pool_0 = mp_init_buffers 4"

definition run_pool_1 :: "(int, nat) mpBufferPool" where
  "run_pool_1 = snd (mp_get_write_buffer run_pool_0)"

definition run_pool_2 :: "(int, nat) mpBufferPool" where
  "run_pool_2 = snd (mp_get_write_buffer run_pool_1)"

definition run_pool_3 :: "(int, nat) mpBufferPool" where
  "run_pool_3 = fst (mp_commit_write_buffer (\<lambda>e. e) MOVE_TYPE_DWELL run_pool_2 ())"

definition run_pool_4 :: "(int, nat) mpBufferPool" where
  "run_pool_4 = fst (mp_commit_write_buffer (\<lambda>e. e) MOVE_TYPE_DWELL run_pool_3 ())"

definition run_pool_5 :: "(int, nat) mpBufferPool" where
  "run_pool_5 = snd (mp_get_run_buffer run_pool_4)"

definition run_pool_full :: "(int, nat) mpBufferPool" where
  "run_pool_full = snd (mp_get_write_buffer (snd (mp_get_write_buffer run_pool_2)))"

text \<open>
  Collaborators that do nothing but log their calls, with \<^verbatim>\<open>cm_hard_alarm\<close> returning the
  status it is given and a kinematics of two steps per unit on four motors; and a planner
  on them, with a fresh pool and the caller's memory holding \<open>10 * a\<close> at address \<open>a\<close>.
\<close>

datatype 'f event =
  HardAlarm stat | RequestExec | CycleEnd | CmCall nat "'f list" "'f list" | EncoderSet nat 'f

definition logging :: "(int, nat, int event list) collaborators" where
  "logging =
     \<lparr>cm_hard_alarm = (\<lambda>st e. (st, e @ [HardAlarm st])),
      st_request_exec_move = (\<lambda>e. e @ [RequestExec]),
      cm_cycle_end = (\<lambda>e. e @ [CycleEnd]),
      cm_call = (\<lambda>f values flags e. e @ [CmCall f values flags]),
      ik_kinematics = (\<lambda>p. map (\<lambda>x. 2 * x) (take 4 p)),
      en_set_encoder_steps = (\<lambda>motor steps e. e @ [EncoderSet motor steps])\<rparr>"

definition run_planner :: "(int, nat, int event list) planner" where
  "run_planner =
     \<lparr>mb = run_pool_0,
      mr = \<lparr>position = [1, 2, 3, 4, 5, 6], target_steps = [7, 7, 7, 7],
            position_steps = [8, 8, 8, 8], commanded_steps = [9, 9, 9, 9],
            following_error = [5, 5, 5, 5]\<rparr>,
      mm_position = [0, 0, 0, 0, 0, 0],
      corrected_steps = [3, 3, 3, 3],
      mem = (\<lambda>a. 10 * int a),
      ext = []\<rparr>"

definition run_planner_full :: "(int, nat, int event list) planner" where
  "run_planner_full = run_planner\<lparr>mb := run_pool_full\<rparr>"

text \<open>Two configurations of four motors: motor \<open>i\<close> on axis \<open>i\<close>, and motor \<open>i\<close> on axis
  \<open>i + 1\<close>, which leaves no motor on axis 0.\<close>

definition motors_on_xyza :: "nat \<Rightarrow> int" where
  "motors_on_xyza motor = int motor"

definition motors_on_yzab :: "nat \<Rightarrow> int" where
  "motors_on_yzab motor = int motor + 1"

section \<open>The ring and its links\<close>

lemma bump_mod: "i < N \<Longrightarrow> bump N i = (i + 1) mod N"
proof (cases "i < N - 1")
  case True
  then show ?thesis by (simp add: bump_def)
next
  case False
  assume "i < N"
  with False have "i + 1 = N" by simp
  with False show ?thesis by (simp add: bump_def)
qed

lemma bump_less: "0 < N \<Longrightarrow> bump N i < N"
  by (auto simp: bump_def)

lemma ring_pv_less: "0 < N \<Longrightarrow> i < N \<Longrightarrow> ring_pv N i < N"
  by (auto simp: ring_pv_def)

lemma ring_pv_bump: "i < N \<Longrightarrow> ring_pv N (bump N i) = i"
  by (auto simp: ring_pv_def bump_def)

lemma bump_ring_pv: "i < N \<Longrightarrow> bump N (ring_pv N i) = i"
  by (auto simp: ring_pv_def bump_def)

lemma foldl_init_links:
  "k \<le> N \<Longrightarrow> length xs = N \<Longrightarrow>
   foldl (init_links N) (p, xs) [0..<k] =
     ((if k = 0 then p else k - 1),
      map (\<lambda>i. if i < k then (xs ! i)\<lparr>nx := bump N i, pv := (if i = 0 then p else i - 1)\<rparr> else xs ! i) [0..<N])"
proof (induction k)
  case 0
  then show ?case by (simp add: list_eq_iff_nth_eq)
next
  case (Suc k)
  then show ?case
    by (auto simp: init_links_def list_eq_iff_nth_eq nth_list_update less_Suc_eq)
qed

lemma bf_init:
  "bf (mp_init_buffers N) = map (\<lambda>i. mpBuf_zero\<lparr>nx := bump N i, pv := ring_pv N i\<rparr>) [0..<N]"
  by (simp add: mp_init_buffers_def foldl_init_links ring_pv_def)

lemma init_fields:
  "w (mp_init_buffers N) = 0" "q (mp_init_buffers N) = 0" "r (mp_init_buffers N) = 0"
  "buffers_available (mp_init_buffers N) = of_nat N"
  by (simp_all add: mp_init_buffers_def)

lemma ring_ok_init: "0 < N \<Longrightarrow> ring_ok N (mp_init_buffers N)"
  by (simp add: ring_ok_def bf_init init_fields)

lemma init_state: "i < N \<Longrightarrow> buffer_state (bf (mp_init_buffers N) ! i) = MP_BUFFER_EMPTY"
  by (simp add: bf_init mpBuf_zero_def)

lemma ring_ok_get:
  "ring_ok N s \<Longrightarrow> ring_ok N (snd (mp_get_write_buffer s))"
  by (auto simp: ring_ok_def mp_get_write_buffer_def Let_def nth_list_update bump_less)

lemma ring_ok_unget:
  "ring_ok N s \<Longrightarrow> ring_ok N (mp_unget_write_buffer s)"
  by (auto simp: ring_ok_def mp_unget_write_buffer_def Let_def nth_list_update ring_pv_less)

lemma ring_ok_commit:
  "ring_ok N s \<Longrightarrow> ring_ok N (fst (mp_commit_write_buffer rq mt s e))"
  by (auto simp: ring_ok_def mp_commit_write_buffer_def Let_def nth_list_update bump_less)

lemma ring_ok_get_run:
  "ring_ok N s \<Longrightarrow> ring_ok N (snd (mp_get_run_buffer s))"
  by (auto simp: ring_ok_def mp_get_run_buffer_def Let_def nth_list_update)

lemma ring_ok_free_run:
  "ring_ok N s \<Longrightarrow> ring_ok N (snd (mp_free_run_buffer s))"
  by (auto simp: ring_ok_def mp_free_run_buffer_def mp_clear_buffer_def Let_def nth_list_update bump_less)

section \<open>Getting write buffers\<close>

lemma get_write_buffer_Some:
  assumes "buffer_state (bf s ! w s) = MP_BUFFER_EMPTY"
  shows "mp_get_write_buffer s =
     (Some (w s),
      s\<lparr>bf := (bf s)[w s := mpBuf_zero\<lparr>nx := nx (bf s ! w s), pv := pv (bf s ! w s),
                                       buffer_state := MP_BUFFER_LOADING\<rparr>],
        buffers_available := buffers_available s - 1,
        w := nx (bf s ! w s)\<rparr>)"
  using assms by (simp add: mp_get_write_buffer_def Let_def)

lemma get_write_buffer_None:
  assumes "buffer_state (bf s ! w s) \<noteq> MP_BUFFER_EMPTY"
  shows "mp_get_write_buffer s = (None, s)"
  using assms by (simp add: mp_get_write_buffer_def)

lemma get_write_buffers_run:
  assumes "ring_ok N s" "j + k \<le> N" "w s = j mod N"
    and "\<forall>i. j \<le> i \<and> i < j + k \<longrightarrow> buffer_state (bf s ! i) = MP_BUFFER_EMPTY"
  shows "\<exists>s'. get_write_buffers k s = Some ([j..<j + k], s') \<and> ring_ok N s' \<and>
           w s' = (j + k) mod N \<and>
           (\<forall>i<N. buffer_state (bf s' ! i) =
              (if j \<le> i \<and> i < j + k then MP_BUFFER_LOADING else buffer_state (bf s ! i)))"
  using assms
proof (induction k arbitrary: j s)
  case 0
  then show ?case by simp
next
  case (Suc k)
  from Suc.prems have jN: "j < N" and wj: "w s = j" by simp_all
  have emp: "buffer_state (bf s ! w s) = MP_BUFFER_EMPTY"
    using Suc.prems(4) wj by simp
  define s1 where "s1 = snd (mp_get_write_buffer s)"
  have g: "mp_get_write_buffer s = (Some j, s1)"
    using get_write_buffer_Some [OF emp] wj by (simp add: s1_def)
  have ok1: "ring_ok N s1"
    unfolding s1_def by (rule ring_ok_get [OF Suc.prems(1)])
  have len: "length (bf s) = N" and nxj: "nx (bf s ! j) = bump N j"
    using Suc.prems(1) jN by (simp_all add: ring_ok_def)
  have w1: "w s1 = Suc j mod N"
    using get_write_buffer_Some [OF emp] wj nxj bump_mod [OF jN] by (simp add: s1_def)
  have st1: "\<forall>i<N. buffer_state (bf s1 ! i) =
      (if i = j then MP_BUFFER_LOADING else buffer_state (bf s ! i))"
    using get_write_buffer_Some [OF emp] wj len by (simp add: s1_def nth_list_update)
  have emp1: "\<forall>i. Suc j \<le> i \<and> i < Suc j + k \<longrightarrow> buffer_state (bf s1 ! i) = MP_BUFFER_EMPTY"
    using st1 Suc.prems(2,4) by auto
  from Suc.IH [OF ok1 _ w1 emp1] Suc.prems(2)
  obtain s' where s': "get_write_buffers k s1 = Some ([Suc j..<Suc j + k], s')"
      "ring_ok N s'" "w s' = (Suc j + k) mod N"
      "\<forall>i<N. buffer_state (bf s' ! i) =
         (if Suc j \<le> i \<and> i < Suc j + k then MP_BUFFER_LOADING else buffer_state (bf s1 ! i))"
    by auto
  have "get_write_buffers (Suc k) s = Some ([j..<j + Suc k], s')"
    using g s'(1) by (simp add: upt_conv_Cons)
  moreover have "\<forall>i<N. buffer_state (bf s' ! i) =
      (if j \<le> i \<and> i < j + Suc k then MP_BUFFER_LOADING else buffer_state (bf s ! i))"
    using s'(4) st1 by auto
  ultimately show ?case using s'(2,3) by auto
qed


section \<open>The layout of the ring is invariant\<close>

lemma free_run_buffer_local:
  assumes "ring_ok N s"
  shows "(let r' = nx (bf s ! r s); s' = snd (mp_free_run_buffer s)
          in r' = bump N (r s) \<and> r s' = r' \<and> w s' = w s \<and> q s' = q s \<and>
             length (bf s') = length (bf s) \<and>
             buffers_available s' = buffers_available s + 1 \<and>
             fst (mp_free_run_buffer s) = (w s = r') \<and>
             bf s' ! r s = mpBuf_zero\<lparr>nx := nx (bf s ! r s), pv := pv (bf s ! r s)\<rparr> \<and>
             buffer_state (bf s' ! r s) = MP_BUFFER_EMPTY \<and>
             (r' \<noteq> r s \<longrightarrow>
                bf s' ! r' = (if buffer_state (bf s ! r') = MP_BUFFER_QUEUED
                              then (bf s ! r')\<lparr>buffer_state := MP_BUFFER_PENDING\<rparr>
                              else bf s ! r')) \<and>
             (\<forall>i<N. i \<noteq> r s \<and> i \<noteq> r' \<longrightarrow> bf s' ! i = bf s ! i))"
proof -
  have len: "length (bf s) = N" and rN: "r s < N" and N: "0 < N"
    and nxr: "nx (bf s ! r s) = bump N (r s)"
    using assms by (auto simp: ring_ok_def)
  have bN: "bump N (r s) < N" using N by (rule bump_less)
  show ?thesis
    using len rN nxr bN
    by (auto simp: mp_free_run_buffer_def mp_clear_buffer_def Let_def nth_list_update mpBuf_zero_def)
qed

lemma ring_idx_inj:
  assumes "j < N" "k < N" "(a + j) mod N = (a + k) mod (N::nat)"
  shows "j = k"
proof -
  have aux: "x = y" if "x \<le> y" "y < N" "(a + x) mod N = (a + y) mod N" for x y
  proof -
    from that have "N dvd (a + y) - (a + x)"
      using mod_eq_dvd_iff_nat [of "a + x" "a + y" N] by simp
    then have "N dvd y - x" by simp
    moreover have "y - x < N" using that by simp
    ultimately have "y - x = 0" by (meson dvd_imp_le not_less zero_less_iff_neq_zero)
    with that show ?thesis by simp
  qed
  show ?thesis
  proof (cases "j \<le> k")
    case True
    then show ?thesis using aux [of j k] assms by simp
  next
    case False
    then show ?thesis using aux [of k j] assms by simp
  qed
qed

lemma ring_pv_mod: "i < N \<Longrightarrow> ring_pv N i = (i + (N - 1)) mod N"
  by (auto simp: ring_pv_def mod_if)

lemma count_active_update:
  "i < length xs \<Longrightarrow>
   count_active (xs[i := b]) + (if active (xs ! i) then 1 else 0) =
   count_active xs + (if active b then 1 else 0)"
proof (induction xs arbitrary: i)
  case Nil
  then show ?case by simp
next
  case (Cons x xs)
  then show ?case
    by (cases i) (auto simp: count_active_def)
qed

lemma count_active_le: "count_active xs \<le> length xs"
  by (simp add: count_active_def)

lemma count_active_less:
  "i < length xs \<Longrightarrow> \<not> active (xs ! i) \<Longrightarrow> count_active xs < length xs"
  unfolding count_active_def by (rule length_filter_less [of "xs ! i"]) simp_all

lemma count_active_pos:
  "i < length xs \<Longrightarrow> active (xs ! i) \<Longrightarrow> 0 < count_active xs"
  unfolding count_active_def by (auto simp: filter_empty_conv)

lemma unat_dec: "0 < unat (x :: 8 word) \<Longrightarrow> unat (x - 1) = unat x - 1"
  by (metis less_numeral_extra(3) unat_minus_one unsigned_0)

lemma unat_inc: "unat (x :: 8 word) < 255 \<Longrightarrow> unat (x + 1) = unat x + 1"
  by (simp add: unat_word_ariths)

lemma layout_at_run:
  assumes "0 < N" "r s < N" "layout N c g s"
  shows "buffer_state (bf s ! r s) \<in>
           (if 0 < c then {MP_BUFFER_QUEUED, MP_BUFFER_PENDING, MP_BUFFER_RUNNING}
            else if 0 < g then {MP_BUFFER_LOADING} else {MP_BUFFER_EMPTY})"
proof -
  from assms(3) have "\<forall>k<N. buffer_state (bf s ! ((r s + k) mod N)) \<in>
        (if k < c then {MP_BUFFER_QUEUED, MP_BUFFER_PENDING, MP_BUFFER_RUNNING}
         else if k < c + g then {MP_BUFFER_LOADING} else {MP_BUFFER_EMPTY})"
    by (simp add: layout_def)
  from this [rule_format, of 0] assms(1,2) show ?thesis by (simp split: if_splits)
qed

lemma layout_get:
  assumes ok: "ring_ok N s" and lay: "layout N c g s"
    and emp: "buffer_state (bf s ! w s) = MP_BUFFER_EMPTY"
  shows "layout N c (Suc g) (snd (mp_get_write_buffer s))"
proof -
  have N: "0 < N" and len: "length (bf s) = N" and rN: "r s < N" and wN: "w s < N"
    and nxw: "nx (bf s ! w s) = bump N (w s)"
    using ok by (auto simp: ring_ok_def)
  from lay have cg: "c + g \<le> N" and qs: "q s = (r s + c) mod N"
    and ws: "w s = (r s + c + g) mod N"
    and cls: "\<And>k. k < N \<Longrightarrow> buffer_state (bf s ! ((r s + k) mod N)) \<in>
        (if k < c then {MP_BUFFER_QUEUED, MP_BUFFER_PENDING, MP_BUFFER_RUNNING}
         else if k < c + g then {MP_BUFFER_LOADING} else {MP_BUFFER_EMPTY})"
    by (simp_all add: layout_def)
  have less: "c + g < N"
  proof (rule ccontr)
    assume "\<not> c + g < N"
    with cg have eq: "c + g = N" by simp
    then have "w s = r s" using ws rN by (simp add: add.assoc)
    moreover have "buffer_state (bf s ! r s) \<noteq> MP_BUFFER_EMPTY"
      using layout_at_run [OF N rN lay] eq N by (auto split: if_splits)
    ultimately show False using emp by simp
  qed
  have w': "bump N (w s) = (r s + c + Suc g) mod N"
    using bump_mod [OF wN] ws by (simp add: mod_Suc_eq)
  show ?thesis
    unfolding layout_def
  proof (intro conjI allI impI)
    show "c + Suc g \<le> N" using less by simp
    show "q (snd (mp_get_write_buffer s)) = (r (snd (mp_get_write_buffer s)) + c) mod N"
      using qs by (simp add: get_write_buffer_Some [OF emp])
    show "w (snd (mp_get_write_buffer s)) = (r (snd (mp_get_write_buffer s)) + c + Suc g) mod N"
      using w' nxw by (simp add: get_write_buffer_Some [OF emp])
  next
    fix k assume k: "k < N"
    show "buffer_state (bf (snd (mp_get_write_buffer s)) ! ((r (snd (mp_get_write_buffer s)) + k) mod N))
       \<in> (if k < c then {MP_BUFFER_QUEUED, MP_BUFFER_PENDING, MP_BUFFER_RUNNING}
           else if k < c + Suc g then {MP_BUFFER_LOADING} else {MP_BUFFER_EMPTY})"
    proof (cases "k = c + g")
      case True
      then show ?thesis
        using ws len wN by (simp add: get_write_buffer_Some [OF emp] add.assoc)
    next
      case False
      then have "(r s + k) mod N \<noteq> w s"
        using ring_idx_inj [of k N "c + g" "r s"] k less ws by (auto simp: add.assoc)
      then show ?thesis
        using cls [OF k] False by (auto simp: get_write_buffer_Some [OF emp] split: if_splits)
    qed
  qed
qed

lemma layout_unget:
  assumes ok: "ring_ok N s" and lay: "layout N c (Suc g) s"
  shows "layout N c g (mp_unget_write_buffer s) \<and>
         buffer_state (bf s ! pv (bf s ! w s)) = MP_BUFFER_LOADING"
proof -
  have N: "0 < N" and len: "length (bf s) = N" and rN: "r s < N" and wN: "w s < N"
    and pvw: "pv (bf s ! w s) = ring_pv N (w s)"
    using ok by (auto simp: ring_ok_def)
  from lay have cg: "c + Suc g \<le> N" and qs: "q s = (r s + c) mod N"
    and ws: "w s = (r s + c + Suc g) mod N"
    and cls: "\<And>k. k < N \<Longrightarrow> buffer_state (bf s ! ((r s + k) mod N)) \<in>
        (if k < c then {MP_BUFFER_QUEUED, MP_BUFFER_PENDING, MP_BUFFER_RUNNING}
         else if k < c + Suc g then {MP_BUFFER_LOADING} else {MP_BUFFER_EMPTY})"
    by (simp_all add: layout_def)
  have less: "c + g < N" using cg by simp
  have "bump N ((r s + c + g) mod N) = w s"
    using bump_mod [of "(r s + c + g) mod N" N] N ws by (simp add: mod_Suc_eq)
  then have "ring_pv N (w s) = (r s + c + g) mod N"
    using ring_pv_bump [of "(r s + c + g) mod N" N] N by simp
  with pvw have h: "pv (bf s ! w s) = (r s + (c + g)) mod N" by (simp add: add.assoc)
  have load: "buffer_state (bf s ! pv (bf s ! w s)) = MP_BUFFER_LOADING"
    using cls [OF less] h by simp
  have "layout N c g (mp_unget_write_buffer s)"
    unfolding layout_def
  proof (intro conjI allI impI)
    show "c + g \<le> N" using less by simp
    show "q (mp_unget_write_buffer s) = (r (mp_unget_write_buffer s) + c) mod N"
      using qs by (simp add: mp_unget_write_buffer_def Let_def)
    show "w (mp_unget_write_buffer s) = (r (mp_unget_write_buffer s) + c + g) mod N"
      using h by (simp add: mp_unget_write_buffer_def Let_def add.assoc)
  next
    fix k assume k: "k < N"
    show "buffer_state (bf (mp_unget_write_buffer s) ! ((r (mp_unget_write_buffer s) + k) mod N))
       \<in> (if k < c then {MP_BUFFER_QUEUED, MP_BUFFER_PENDING, MP_BUFFER_RUNNING}
           else if k < c + g then {MP_BUFFER_LOADING} else {MP_BUFFER_EMPTY})"
    proof (cases "k = c + g")
      case True
      then show ?thesis
        using h len N by (simp add: mp_unget_write_buffer_def Let_def)
    next
      case False
      then have "(r s + k) mod N \<noteq> pv (bf s ! w s)"
        using ring_idx_inj [of k N "c + g" "r s"] k less h by auto
      then show ?thesis
        using cls [OF k] False by (auto simp: mp_unget_write_buffer_def Let_def split: if_splits)
    qed
  qed
  with load show ?thesis by simp
qed

lemma layout_commit:
  assumes ok: "ring_ok N s" and lay: "layout N c (Suc g) s"
  shows "layout N (Suc c) g (fst (mp_commit_write_buffer rq mt s e)) \<and>
         buffer_state (bf s ! q s) = MP_BUFFER_LOADING"
proof -
  have N: "0 < N" and len: "length (bf s) = N" and rN: "r s < N" and qN: "q s < N"
    and nxq: "nx (bf s ! q s) = bump N (q s)"
    using ok by (auto simp: ring_ok_def)
  from lay have cg: "c + Suc g \<le> N" and qs: "q s = (r s + c) mod N"
    and ws: "w s = (r s + c + Suc g) mod N"
    and cls: "\<And>k. k < N \<Longrightarrow> buffer_state (bf s ! ((r s + k) mod N)) \<in>
        (if k < c then {MP_BUFFER_QUEUED, MP_BUFFER_PENDING, MP_BUFFER_RUNNING}
         else if k < c + Suc g then {MP_BUFFER_LOADING} else {MP_BUFFER_EMPTY})"
    by (simp_all add: layout_def)
  have less: "c < N" using cg by simp
  have load: "buffer_state (bf s ! q s) = MP_BUFFER_LOADING"
    using cls [OF less] qs by simp
  have q': "bump N (q s) = (r s + Suc c) mod N"
    using bump_mod [OF qN] qs by (simp add: mod_Suc_eq)
  have "layout N (Suc c) g (fst (mp_commit_write_buffer rq mt s e))"
    unfolding layout_def
  proof (intro conjI allI impI)
    show "Suc c + g \<le> N" using cg by simp
    show "q (fst (mp_commit_write_buffer rq mt s e)) =
          (r (fst (mp_commit_write_buffer rq mt s e)) + Suc c) mod N"
      using q' nxq by (simp add: mp_commit_write_buffer_def)
    show "w (fst (mp_commit_write_buffer rq mt s e)) =
          (r (fst (mp_commit_write_buffer rq mt s e)) + Suc c + g) mod N"
      using ws by (simp add: mp_commit_write_buffer_def)
  next
    fix k assume k: "k < N"
    show "buffer_state (bf (fst (mp_commit_write_buffer rq mt s e)) !
            ((r (fst (mp_commit_write_buffer rq mt s e)) + k) mod N))
       \<in> (if k < Suc c then {MP_BUFFER_QUEUED, MP_BUFFER_PENDING, MP_BUFFER_RUNNING}
           else if k < Suc c + g then {MP_BUFFER_LOADING} else {MP_BUFFER_EMPTY})"
    proof (cases "k = c")
      case True
      then show ?thesis
        using qs len qN by (simp add: mp_commit_write_buffer_def)
    next
      case False
      then have "(r s + k) mod N \<noteq> q s"
        using ring_idx_inj [of k N c "r s"] k less qs by auto
      then show ?thesis
        using cls [OF k] False by (auto simp: mp_commit_write_buffer_def split: if_splits)
    qed
  qed
  with load show ?thesis by simp
qed

lemma layout_get_run:
  assumes ok: "ring_ok N s" and lay: "layout N c g s"
  shows "layout N c g (snd (mp_get_run_buffer s))"
proof -
  have N: "0 < N" and len: "length (bf s) = N" and rN: "r s < N"
    using ok by (auto simp: ring_ok_def)
  from lay have cg: "c + g \<le> N" and qs: "q s = (r s + c) mod N"
    and ws: "w s = (r s + c + g) mod N"
    and cls: "\<And>k. k < N \<Longrightarrow> buffer_state (bf s ! ((r s + k) mod N)) \<in>
        (if k < c then {MP_BUFFER_QUEUED, MP_BUFFER_PENDING, MP_BUFFER_RUNNING}
         else if k < c + g then {MP_BUFFER_LOADING} else {MP_BUFFER_EMPTY})"
    by (simp_all add: layout_def)
  show ?thesis
  proof (cases "buffer_state (bf s ! r s) = MP_BUFFER_QUEUED \<or>
                buffer_state (bf s ! r s) = MP_BUFFER_PENDING")
    case False
    then have "snd (mp_get_run_buffer s) = s"
      by (simp add: mp_get_run_buffer_def Let_def)
    with lay show ?thesis by simp
  next
    case True
    then have s': "snd (mp_get_run_buffer s) =
        s\<lparr>bf := (bf s)[r s := (bf s ! r s)\<lparr>buffer_state := MP_BUFFER_RUNNING\<rparr>]\<rparr>"
      by (auto simp: mp_get_run_buffer_def Let_def)
    have c0: "0 < c"
      using layout_at_run [OF N rN lay] True by (auto split: if_splits)
    show ?thesis
      unfolding layout_def s'
    proof (intro conjI allI impI)
      fix k assume k: "k < N"
      show "buffer_state (bf (s\<lparr>bf := (bf s)[r s := (bf s ! r s)\<lparr>buffer_state := MP_BUFFER_RUNNING\<rparr>]\<rparr>) !
              ((r (s\<lparr>bf := (bf s)[r s := (bf s ! r s)\<lparr>buffer_state := MP_BUFFER_RUNNING\<rparr>]\<rparr>) + k) mod N))
         \<in> (if k < c then {MP_BUFFER_QUEUED, MP_BUFFER_PENDING, MP_BUFFER_RUNNING}
             else if k < c + g then {MP_BUFFER_LOADING} else {MP_BUFFER_EMPTY})"
      proof (cases "k = 0")
        case True
        then show ?thesis using c0 rN len by simp
      next
        case False
        then have "(r s + k) mod N \<noteq> r s"
          using ring_idx_inj [of k N 0 "r s"] k N rN by auto
        then show ?thesis using cls [OF k] by simp
      qed
    qed (use cg qs ws in simp_all)
  qed
qed

lemma free_run_states:
  assumes ok: "ring_ok N s" and i: "i < N"
  shows "buffer_state (bf (snd (mp_free_run_buffer s)) ! i) =
           (if i = r s then MP_BUFFER_EMPTY
            else if i = bump N (r s) \<and> buffer_state (bf s ! i) = MP_BUFFER_QUEUED
                 then MP_BUFFER_PENDING
                 else buffer_state (bf s ! i))"
proof -
  have len: "length (bf s) = N" and rN: "r s < N" and N: "0 < N"
    and nxr: "nx (bf s ! r s) = bump N (r s)"
    using ok by (auto simp: ring_ok_def)
  have bN: "bump N (r s) < N" using N by (rule bump_less)
  show ?thesis
    using len rN nxr bN i
    by (auto simp: mp_free_run_buffer_def mp_clear_buffer_def Let_def nth_list_update mpBuf_zero_def)
qed

lemma layout_free_run:
  assumes ok: "ring_ok N s" and lay: "layout N c g s"
    and run: "buffer_state (bf s ! r s) \<in> {MP_BUFFER_QUEUED, MP_BUFFER_PENDING, MP_BUFFER_RUNNING}"
  shows "0 < c \<and> layout N (c - 1) g (snd (mp_free_run_buffer s))"
proof -
  have N: "0 < N" and len: "length (bf s) = N" and rN: "r s < N"
    and nxr: "nx (bf s ! r s) = bump N (r s)"
    using ok by (auto simp: ring_ok_def)
  from lay have cg: "c + g \<le> N" and qs: "q s = (r s + c) mod N"
    and ws: "w s = (r s + c + g) mod N"
    and cls: "\<And>k. k < N \<Longrightarrow> buffer_state (bf s ! ((r s + k) mod N)) \<in>
        (if k < c then {MP_BUFFER_QUEUED, MP_BUFFER_PENDING, MP_BUFFER_RUNNING}
         else if k < c + g then {MP_BUFFER_LOADING} else {MP_BUFFER_EMPTY})"
    by (simp_all add: layout_def)
  have c0: "0 < c"
    using layout_at_run [OF N rN lay] run by (auto split: if_splits)
  let ?s' = "snd (mp_free_run_buffer s)"
  have loc: "r ?s' = bump N (r s)" "w ?s' = w s" "q ?s' = q s"
    using free_run_buffer_local [OF ok] by (simp_all add: Let_def)
  have r': "bump N (r s) = Suc (r s) mod N"
    using bump_mod [OF rN] by simp
  have shift: "(Suc (r s) mod N + k) mod N = (r s + Suc k) mod N" for k
    by (simp add: mod_add_left_eq)
  from c0 obtain c' where c': "c = Suc c'" by (cases c) simp_all
  have "layout N (c - 1) g ?s'"
    unfolding layout_def
  proof (intro conjI allI impI)
    show "c - 1 + g \<le> N" using cg by simp
    show "q ?s' = (r ?s' + (c - 1)) mod N"
      using qs by (simp add: loc r' c' mod_add_left_eq)
    show "w ?s' = (r ?s' + (c - 1) + g) mod N"
      using ws by (simp add: loc r' c' mod_add_left_eq add.assoc)
  next
    fix k assume k: "k < N"
    have idx: "(r ?s' + k) mod N = (r s + Suc k) mod N"
      by (simp add: loc r' shift)
    show "buffer_state (bf ?s' ! ((r ?s' + k) mod N))
       \<in> (if k < c - 1 then {MP_BUFFER_QUEUED, MP_BUFFER_PENDING, MP_BUFFER_RUNNING}
           else if k < c - 1 + g then {MP_BUFFER_LOADING} else {MP_BUFFER_EMPTY})"
    proof (cases "Suc k = N")
      case True
      then have "(r s + Suc k) mod N = r s" using rN by simp
      moreover have "\<not> k < c - 1 + g" "\<not> k < c - 1" using True cg c0 by arith+
      ultimately show ?thesis
        using free_run_states [OF ok rN] by (simp add: idx)
    next
      case False
      with k have k1: "Suc k < N" by simp
      have ne: "(r s + Suc k) mod N \<noteq> r s"
        using ring_idx_inj [of "Suc k" N 0 "r s"] k1 N rN by auto
      have iN: "(r s + Suc k) mod N < N" using N by simp
      show ?thesis
        using free_run_states [OF ok iN] cls [OF k1] ne c0
        by (auto simp: idx split: if_splits)
    qed
  qed
  with c0 show ?thesis by simp
qed

lemma pool_inv_init:
  assumes "0 < N" "N \<le> 255"
  shows "pool_inv N 0 (mp_init_buffers N)"
proof -
  have "layout N 0 0 (mp_init_buffers N)"
    using assms by (simp add: layout_def init_fields init_state)
  moreover have "count_active (bf (mp_init_buffers N)) = 0"
    by (simp add: count_active_def bf_init filter_empty_conv active_def mpBuf_zero_def)
  moreover have "unat (of_nat N :: 8 word) = N"
    using assms by (simp add: unat_of_nat take_bit_nat_eq_self)
  ultimately show ?thesis
    using assms by (auto simp: pool_inv_def ring_ok_init init_fields)
qed

lemma pool_inv_get:
  assumes inv: "pool_inv N g s" and N: "N \<le> 255"
    and get: "mp_get_write_buffer s = (Some h, s')"
  shows "pool_inv N (Suc g) s'"
proof -
  from inv obtain c where ok: "ring_ok N s" and lay: "layout N c g s"
      and cnt: "unat (buffers_available s) + count_active (bf s) = N"
    by (auto simp: pool_inv_def)
  have emp: "buffer_state (bf s ! w s) = MP_BUFFER_EMPTY"
    using get by (auto simp: mp_get_write_buffer_def split: if_splits)
  have s': "s' = snd (mp_get_write_buffer s)" using get by simp
  have len: "length (bf s) = N" and wN: "w s < N"
    using ok by (auto simp: ring_ok_def)
  have lay': "layout N c (Suc g) s'"
    unfolding s' by (rule layout_get [OF ok lay emp])
  then have "c + Suc g \<le> N" by (simp add: layout_def)
  then have cN: "c \<in> {0..N}" by simp
  have "count_active (bf s) < N"
    using count_active_less [of "w s" "bf s"] wN len emp by (simp add: active_def)
  with cnt have pos: "0 < unat (buffers_available s)" by simp
  have "count_active (bf s') = Suc (count_active (bf s))"
    using count_active_update [of "w s" "bf s"
        "mpBuf_zero\<lparr>nx := nx (bf s ! w s), pv := pv (bf s ! w s), buffer_state := MP_BUFFER_LOADING\<rparr>"]
      wN len emp
    by (simp add: s' get_write_buffer_Some [OF emp] active_def)
  moreover have "unat (buffers_available s') = unat (buffers_available s) - 1"
    using unat_dec [OF pos] by (simp add: s' get_write_buffer_Some [OF emp])
  ultimately have "unat (buffers_available s') + count_active (bf s') = N"
    using cnt pos by simp
  moreover have "ring_ok N s'" unfolding s' by (rule ring_ok_get [OF ok])
  ultimately show ?thesis using lay' cN by (auto simp: pool_inv_def)
qed

lemma pool_inv_get_none:
  assumes "pool_inv N g s" "mp_get_write_buffer s = (None, s')"
  shows "pool_inv N g s'"
  using assms by (auto simp: mp_get_write_buffer_def Let_def split: if_splits)

lemma pool_inv_unget:
  assumes inv: "pool_inv N (Suc g) s" and N: "N \<le> 255"
  shows "pool_inv N g (mp_unget_write_buffer s)"
proof -
  from inv obtain c where ok: "ring_ok N s" and lay: "layout N c (Suc g) s"
      and cnt: "unat (buffers_available s) + count_active (bf s) = N" and cN: "c \<in> {0..N}"
    by (auto simp: pool_inv_def)
  have len: "length (bf s) = N" and wN: "w s < N" and N0: "0 < N"
    and pvw: "pv (bf s ! w s) = ring_pv N (w s)"
    using ok by (auto simp: ring_ok_def)
  have hN: "pv (bf s ! w s) < N" using pvw ring_pv_less [OF N0 wN] by simp
  from layout_unget [OF ok lay]
  have lay': "layout N c g (mp_unget_write_buffer s)"
    and load: "buffer_state (bf s ! pv (bf s ! w s)) = MP_BUFFER_LOADING"
    by simp_all
  have "0 < count_active (bf s)"
    using count_active_pos [of "pv (bf s ! w s)" "bf s"] hN len load by (simp add: active_def)
  with cnt N have small: "unat (buffers_available s) < 255" by simp
  have "Suc (count_active (bf (mp_unget_write_buffer s))) = count_active (bf s)"
    using count_active_update [of "pv (bf s ! w s)" "bf s"
        "(bf s ! pv (bf s ! w s))\<lparr>buffer_state := MP_BUFFER_EMPTY\<rparr>"] hN len load
    by (simp add: mp_unget_write_buffer_def Let_def active_def)
  moreover have "unat (buffers_available (mp_unget_write_buffer s)) = unat (buffers_available s) + 1"
    using unat_inc [OF small] by (simp add: mp_unget_write_buffer_def Let_def)
  ultimately have "unat (buffers_available (mp_unget_write_buffer s)) +
      count_active (bf (mp_unget_write_buffer s)) = N"
    using cnt by simp
  moreover have "ring_ok N (mp_unget_write_buffer s)" by (rule ring_ok_unget [OF ok])
  ultimately show ?thesis using lay' cN by (auto simp: pool_inv_def)
qed

lemma pool_inv_commit:
  assumes inv: "pool_inv N (Suc g) s"
  shows "pool_inv N g (fst (mp_commit_write_buffer rq mt s e))"
proof -
  from inv obtain c where ok: "ring_ok N s" and lay: "layout N c (Suc g) s"
      and cnt: "unat (buffers_available s) + count_active (bf s) = N"
    by (auto simp: pool_inv_def)
  have len: "length (bf s) = N" and qN: "q s < N"
    using ok by (auto simp: ring_ok_def)
  from layout_commit [OF ok lay, of rq mt e]
  have lay': "layout N (Suc c) g (fst (mp_commit_write_buffer rq mt s e))"
    and load: "buffer_state (bf s ! q s) = MP_BUFFER_LOADING"
    by simp_all
  from lay' have "Suc c + g \<le> N" by (simp add: layout_def)
  then have cN: "Suc c \<in> {0..N}" by simp
  have "count_active (bf (fst (mp_commit_write_buffer rq mt s e))) = count_active (bf s)"
    using count_active_update [of "q s" "bf s"
        "(bf s ! q s)\<lparr>move_type := mt, move_state := MOVE_NEW, buffer_state := MP_BUFFER_QUEUED\<rparr>"]
      qN len load
    by (simp add: mp_commit_write_buffer_def active_def)
  then have "unat (buffers_available (fst (mp_commit_write_buffer rq mt s e))) +
      count_active (bf (fst (mp_commit_write_buffer rq mt s e))) = N"
    using cnt by (simp add: mp_commit_write_buffer_def)
  moreover have "ring_ok N (fst (mp_commit_write_buffer rq mt s e))"
    by (rule ring_ok_commit [OF ok])
  ultimately show ?thesis using lay' cN by (auto simp: pool_inv_def simp del: atLeastAtMost_iff)
qed

lemma pool_inv_get_run:
  assumes inv: "pool_inv N g s"
  shows "pool_inv N g (snd (mp_get_run_buffer s))"
proof -
  from inv obtain c where ok: "ring_ok N s" and lay: "layout N c g s"
      and cnt: "unat (buffers_available s) + count_active (bf s) = N" and cN: "c \<in> {0..N}"
    by (auto simp: pool_inv_def)
  have len: "length (bf s) = N" and rN: "r s < N"
    using ok by (auto simp: ring_ok_def)
  have lay': "layout N c g (snd (mp_get_run_buffer s))"
    by (rule layout_get_run [OF ok lay])
  have "count_active (bf (snd (mp_get_run_buffer s))) = count_active (bf s) \<and>
        buffers_available (snd (mp_get_run_buffer s)) = buffers_available s"
  proof (cases "buffer_state (bf s ! r s) = MP_BUFFER_QUEUED \<or>
                buffer_state (bf s ! r s) = MP_BUFFER_PENDING")
    case False
    then show ?thesis by (simp add: mp_get_run_buffer_def Let_def)
  next
    case True
    then show ?thesis
      using count_active_update [of "r s" "bf s" "(bf s ! r s)\<lparr>buffer_state := MP_BUFFER_RUNNING\<rparr>"]
        rN len
      by (auto simp: mp_get_run_buffer_def Let_def active_def)
  qed
  with cnt have "unat (buffers_available (snd (mp_get_run_buffer s))) +
      count_active (bf (snd (mp_get_run_buffer s))) = N"
    by simp
  moreover have "ring_ok N (snd (mp_get_run_buffer s))" by (rule ring_ok_get_run [OF ok])
  ultimately show ?thesis using lay' cN by (auto simp: pool_inv_def simp del: atLeastAtMost_iff)
qed

lemma get_run_Some_iff:
  assumes "r s < length (bf s)"
  shows "fst (mp_get_run_buffer s) = Some h \<longleftrightarrow>
           h = r s \<and> buffer_state (bf s ! r s) \<in> {MP_BUFFER_QUEUED, MP_BUFFER_PENDING, MP_BUFFER_RUNNING}"
  using assms by (auto simp: mp_get_run_buffer_def Let_def)

lemma free_run_count:
  assumes ok: "ring_ok N s" and act: "active (bf s ! r s)"
  shows "Suc (count_active (bf (snd (mp_free_run_buffer s)))) = count_active (bf s)"
proof -
  have len: "length (bf s) = N" and rN: "r s < N" and N: "0 < N"
    and nxr: "nx (bf s ! r s) = bump N (r s)"
    using ok by (auto simp: ring_ok_def)
  let ?b1 = "(bf s)[r s := mp_clear_buffer (bf s ! r s)]"
  let ?r' = "nx (?b1 ! r s)"
  have r': "?r' < N" using nxr bump_less [OF N] rN len by (simp add: mp_clear_buffer_def)
  have c1: "Suc (count_active ?b1) = count_active (bf s)"
    using count_active_update [of "r s" "bf s" "mp_clear_buffer (bf s ! r s)"] rN len act
    by (simp add: active_def mp_clear_buffer_def mpBuf_zero_def)
  show ?thesis
  proof (cases "buffer_state (?b1 ! ?r') = MP_BUFFER_QUEUED")
    case False
    then have "bf (snd (mp_free_run_buffer s)) = ?b1"
      by (simp add: mp_free_run_buffer_def Let_def)
    with c1 show ?thesis by simp
  next
    case True
    then have "bf (snd (mp_free_run_buffer s)) =
        ?b1[?r' := (?b1 ! ?r')\<lparr>buffer_state := MP_BUFFER_PENDING\<rparr>]"
      by (simp add: mp_free_run_buffer_def Let_def)
    moreover have "count_active (?b1[?r' := (?b1 ! ?r')\<lparr>buffer_state := MP_BUFFER_PENDING\<rparr>]) =
        count_active ?b1"
      using count_active_update [of ?r' ?b1 "(?b1 ! ?r')\<lparr>buffer_state := MP_BUFFER_PENDING\<rparr>"]
        r' len True
      by (simp add: active_def)
    ultimately show ?thesis using c1 by simp
  qed
qed

lemma pool_inv_free_run:
  assumes inv: "pool_inv N g s" and N: "N \<le> 255"
    and run: "fst (mp_get_run_buffer s) = Some h"
  shows "pool_inv N g (snd (mp_free_run_buffer s))"
proof -
  from inv obtain c where ok: "ring_ok N s" and lay: "layout N c g s"
      and cnt: "unat (buffers_available s) + count_active (bf s) = N" and cN: "c \<in> {0..N}"
    by (auto simp: pool_inv_def)
  have len: "length (bf s) = N" and rN: "r s < N"
    using ok by (auto simp: ring_ok_def)
  have st: "buffer_state (bf s ! r s) \<in> {MP_BUFFER_QUEUED, MP_BUFFER_PENDING, MP_BUFFER_RUNNING}"
    using run get_run_Some_iff [of s h] rN len by simp
  then have act: "active (bf s ! r s)" by (auto simp: active_def)
  from layout_free_run [OF ok lay st]
  have lay': "layout N (c - 1) g (snd (mp_free_run_buffer s))" by simp
  have cN': "c - 1 \<in> {0..N}" using cN by simp
  have cnt': "Suc (count_active (bf (snd (mp_free_run_buffer s)))) = count_active (bf s)"
    by (rule free_run_count [OF ok act])
  with cnt N have small: "unat (buffers_available s) < 255" by simp
  have "buffers_available (snd (mp_free_run_buffer s)) = buffers_available s + 1"
    using free_run_buffer_local [OF ok] by (simp add: Let_def)
  then have "unat (buffers_available (snd (mp_free_run_buffer s))) = unat (buffers_available s) + 1"
    using unat_inc [OF small] by simp
  with cnt cnt' have "unat (buffers_available (snd (mp_free_run_buffer s))) +
      count_active (bf (snd (mp_free_run_buffer s))) = N"
    by simp
  moreover have "ring_ok N (snd (mp_free_run_buffer s))" by (rule ring_ok_free_run [OF ok])
  ultimately show ?thesis using lay' cN' by (auto simp: pool_inv_def simp del: atLeastAtMost_iff)
qed

lemma pool_inv_populate:
  assumes inv: "pool_inv N g s" and i: "i < length (bf s)"
    and st: "buffer_state (bf s ! i) = MP_BUFFER_LOADING" "buffer_state b = MP_BUFFER_LOADING"
    and links: "pv b = pv (bf s ! i)" "nx b = nx (bf s ! i)"
  shows "pool_inv N g (s\<lparr>bf := (bf s)[i := b]\<rparr>)"
proof -
  from inv obtain c where ok: "ring_ok N s" and lay: "layout N c g s"
      and cnt: "unat (buffers_available s) + count_active (bf s) = N" and cN: "c \<in> {0..N}"
    by (auto simp: pool_inv_def)
  have len: "length (bf s) = N" using ok by (simp add: ring_ok_def)
  have same: "buffer_state ((bf s)[i := b] ! j) = buffer_state (bf s ! j)" if "j < N" for j
    using that len st i by (cases "j = i") simp_all
  have keep: "nx ((bf s)[i := b] ! j) = nx (bf s ! j) \<and> pv ((bf s)[i := b] ! j) = pv (bf s ! j)"
    if "j < N" for j
    using that len links i by (cases "j = i") simp_all
  have ok': "ring_ok N (s\<lparr>bf := (bf s)[i := b]\<rparr>)"
    using ok by (simp add: ring_ok_def keep)
  have lay': "layout N c g (s\<lparr>bf := (bf s)[i := b]\<rparr>)"
    using lay ok by (simp add: layout_def same ring_ok_def)
  have "count_active ((bf s)[i := b]) = count_active (bf s)"
    using count_active_update [OF i, of b] st by (simp add: active_def)
  with cnt ok' lay' cN show ?thesis
    by (auto simp: pool_inv_def simp del: atLeastAtMost_iff)
qed

lemma reachable_pool_inv:
  assumes "reachable N g s" "0 < N" "N \<le> 255"
  shows "pool_inv N g s"
  using assms
proof (induction rule: reachable.induct)
  case reach_init
  then show ?case by (simp add: pool_inv_init)
next
  case (reach_get g s h s')
  then show ?case by (simp add: pool_inv_get)
next
  case (reach_get_none g s s')
  then show ?case using pool_inv_get_none by blast
next
  case (reach_unget g s)
  then show ?case by (simp add: pool_inv_unget)
next
  case (reach_commit g s mt)
  then show ?case by (simp add: pool_inv_commit)
next
  case (reach_get_run g s)
  then show ?case by (simp add: pool_inv_get_run)
next
  case (reach_free_run g s h)
  then show ?case using pool_inv_free_run by blast
next
  case (reach_populate g s i b)
  then show ?case by (simp add: pool_inv_populate)
qed

lemma ring_idx_surj:
  assumes "i < N" "a < (N::nat)"
  shows "(a + (i + N - a) mod N) mod N = i"
proof -
  have "(a + (i + N - a) mod N) mod N = (a + (i + N - a)) mod N"
    by (simp add: mod_add_right_eq)
  also have "\<dots> = (i + N) mod N" using assms by simp
  also have "\<dots> = i" using assms by simp
  finally show ?thesis .
qed

lemma layout_all_empty:
  assumes N: "0 < N" and rN: "r s < N" and lay: "layout N c g s" and cg: "c + g < N"
  shows "w s = r s \<longleftrightarrow> (\<forall>i<N. buffer_state (bf s ! i) = MP_BUFFER_EMPTY)"
proof -
  from lay have ws: "w s = (r s + c + g) mod N"
    and cls: "\<And>k. k < N \<Longrightarrow> buffer_state (bf s ! ((r s + k) mod N)) \<in>
        (if k < c then {MP_BUFFER_QUEUED, MP_BUFFER_PENDING, MP_BUFFER_RUNNING}
         else if k < c + g then {MP_BUFFER_LOADING} else {MP_BUFFER_EMPTY})"
    by (simp_all add: layout_def)
  have "w s = r s \<longleftrightarrow> c + g = 0"
  proof
    assume "w s = r s"
    then have "(r s + (c + g)) mod N = (r s + 0) mod N" using ws rN by (simp add: add.assoc)
    then show "c + g = 0" using ring_idx_inj [of "c + g" N 0 "r s"] cg N by simp
  next
    assume "c + g = 0"
    then show "w s = r s" using ws rN by simp
  qed
  moreover have "(\<forall>i<N. buffer_state (bf s ! i) = MP_BUFFER_EMPTY) \<longleftrightarrow> c + g = 0"
  proof
    assume all: "\<forall>i<N. buffer_state (bf s ! i) = MP_BUFFER_EMPTY"
    show "c + g = 0"
    proof (rule ccontr)
      assume "c + g \<noteq> 0"
      then have "buffer_state (bf s ! r s) \<noteq> MP_BUFFER_EMPTY"
        using layout_at_run [OF N rN lay] by (auto split: if_splits)
      with all rN show False by simp
    qed
  next
    assume z: "c + g = 0"
    show "\<forall>i<N. buffer_state (bf s ! i) = MP_BUFFER_EMPTY"
    proof (intro allI impI)
      fix i assume i: "i < N"
      have "(i + N - r s) mod N < N" using N by simp
      from cls [OF this] z show "buffer_state (bf s ! i) = MP_BUFFER_EMPTY"
        by (simp add: ring_idx_surj [OF i rN])
    qed
  qed
  ultimately show ?thesis by simp
qed

lemma free_run_drained:
  assumes inv: "pool_inv N g s" and run: "fst (mp_get_run_buffer s) = Some h"
  shows "fst (mp_free_run_buffer s) \<longleftrightarrow>
         (\<forall>i<N. buffer_state (bf (snd (mp_free_run_buffer s)) ! i) = MP_BUFFER_EMPTY)"
proof -
  from inv obtain c where ok: "ring_ok N s" and lay: "layout N c g s"
    by (auto simp: pool_inv_def)
  have len: "length (bf s) = N" and rN: "r s < N" and N: "0 < N"
    using ok by (auto simp: ring_ok_def)
  have st: "buffer_state (bf s ! r s) \<in> {MP_BUFFER_QUEUED, MP_BUFFER_PENDING, MP_BUFFER_RUNNING}"
    using run get_run_Some_iff [of s h] rN len by simp
  let ?s' = "snd (mp_free_run_buffer s)"
  from layout_free_run [OF ok lay st]
  have c0: "0 < c" and lay': "layout N (c - 1) g ?s'" by simp_all
  from lay have "c + g \<le> N" by (simp add: layout_def)
  with c0 have less: "c - 1 + g < N" by simp
  have ok': "ring_ok N ?s'" by (rule ring_ok_free_run [OF ok])
  then have rN': "r ?s' < N" by (simp add: ring_ok_def)
  have "fst (mp_free_run_buffer s) \<longleftrightarrow> w ?s' = r ?s'"
    by (simp add: mp_free_run_buffer_def Let_def)
  with layout_all_empty [OF N rN' lay' less] show ?thesis by simp
qed

section \<open>The producers stay among the reachable pools\<close>

text \<open>
  \<^verbatim>\<open>mp_dwell\<close> and \<^verbatim>\<open>mp_queue_command\<close> get a write buffer, fill it in and commit a write
  buffer: the pool they leave is reachable when the pool they find is.
\<close>

lemma commit_pool_independent:
  "fst (mp_commit_write_buffer rq mt s e) = fst (mp_commit_write_buffer (\<lambda>e. e) mt s ())"
  by (simp add: mp_commit_write_buffer_def)

lemma reachable_get_populate_commit:
  assumes re: "reachable N g s" and N: "0 < N" "N \<le> 255"
    and get: "mp_get_write_buffer s = (Some h, s1)"
    and b: "pv b = pv (bf s1 ! h)" "nx b = nx (bf s1 ! h)" "buffer_state b = MP_BUFFER_LOADING"
  shows "reachable N g (fst (mp_commit_write_buffer rq mt (s1\<lparr>bf := (bf s1)[h := b]\<rparr>) e))"
proof -
  have emp: "buffer_state (bf s ! w s) = MP_BUFFER_EMPTY"
    using get by (auto simp: mp_get_write_buffer_def split: if_splits)
  have ok: "ring_ok N s"
    using reachable_pool_inv [OF re N] by (simp add: pool_inv_def)
  then have len: "length (bf s) = N" and wN: "w s < N" by (simp_all add: ring_ok_def)
  have s1: "s1 = snd (mp_get_write_buffer s)" using get by simp
  have hw: "h = w s" using get get_write_buffer_Some [OF emp] by simp
  have h1: "h < length (bf s1)" "buffer_state (bf s1 ! h) = MP_BUFFER_LOADING"
    using len wN by (simp_all add: s1 hw get_write_buffer_Some [OF emp])
  from re get have "reachable N (Suc g) s1" by (rule reach_get)
  from this h1 b have "reachable N (Suc g) (s1\<lparr>bf := (bf s1)[h := b]\<rparr>)"
    by (rule reach_populate)
  then have "reachable N g (fst (mp_commit_write_buffer (\<lambda>e. e) mt (s1\<lparr>bf := (bf s1)[h := b]\<rparr>) ()))"
    by (rule reach_commit)
  then show ?thesis by (simp only: commit_pool_independent [of rq mt _ e])
qed

lemma reachable_dwell:
  assumes re: "reachable N g (mb m)" and N: "0 < N" "N \<le> 255"
  shows "reachable N g (mb (snd (mp_dwell X seconds m)))"
proof (cases "mp_get_write_buffer (mb m)")
  case (Pair res s1)
  show ?thesis
  proof (cases res)
    case None
    with Pair re have "reachable N g s1" by (auto intro: reach_get_none)
    with Pair None show ?thesis by (simp add: mp_dwell_def split_beta)
  next
    case (Some h)
    with Pair have get: "mp_get_write_buffer (mb m) = (Some h, s1)" by simp
    let ?b = "(bf s1 ! h)\<lparr>bf_func := EXEC_DWELL, move_time := seconds, move_state := MOVE_NEW\<rparr>"
    have emp: "buffer_state (bf (mb m) ! w (mb m)) = MP_BUFFER_EMPTY"
      using get by (auto simp: mp_get_write_buffer_def split: if_splits)
    have ok: "ring_ok N (mb m)"
      using reachable_pool_inv [OF re N] by (simp add: pool_inv_def)
    then have len: "length (bf (mb m)) = N" and wN: "w (mb m) < N" by (simp_all add: ring_ok_def)
    have "buffer_state (bf s1 ! h) = MP_BUFFER_LOADING"
      using get get_write_buffer_Some [OF emp] len wN by auto
    then have "reachable N g (fst (mp_commit_write_buffer (st_request_exec_move X) MOVE_TYPE_DWELL
        (s1\<lparr>bf := (bf s1)[h := ?b]\<rparr>) (ext m)))"
      by (intro reachable_get_populate_commit [OF re N get]) simp_all
    then show ?thesis
      using get by (simp add: mp_dwell_def Let_def split_beta)
  qed
qed

lemma copy_axis_keeps:
  "pv (foldl (copy_axis memory v f) b as) = pv b \<and> nx (foldl (copy_axis memory v f) b as) = nx b \<and>
   buffer_state (foldl (copy_axis memory v f) b as) = buffer_state b"
  by (induction as arbitrary: b) (simp_all add: copy_axis_def)

lemma reachable_queue_command:
  assumes re: "reachable N g (mb m)" and N: "0 < N" "N \<le> 255"
  shows "reachable N g (mb (mp_queue_command X cm_exec value flag m))"
proof (cases "mp_get_write_buffer (mb m)")
  case (Pair res s1)
  show ?thesis
  proof (cases res)
    case None
    with Pair re have "reachable N g s1" by (auto intro: reach_get_none)
    with Pair None show ?thesis by (simp add: mp_queue_command_def split_beta)
  next
    case (Some h)
    with Pair have get: "mp_get_write_buffer (mb m) = (Some h, s1)" by simp
    let ?b = "foldl (copy_axis (mem m) value flag)
        ((bf s1 ! h)\<lparr>move_type := MOVE_TYPE_COMMAND, bf_func := EXEC_COMMAND,
                        cm_func := Some cm_exec\<rparr>) [0..<AXES]"
    have emp: "buffer_state (bf (mb m) ! w (mb m)) = MP_BUFFER_EMPTY"
      using get by (auto simp: mp_get_write_buffer_def split: if_splits)
    have ok: "ring_ok N (mb m)"
      using reachable_pool_inv [OF re N] by (simp add: pool_inv_def)
    then have len: "length (bf (mb m)) = N" and wN: "w (mb m) < N" by (simp_all add: ring_ok_def)
    have "buffer_state (bf s1 ! h) = MP_BUFFER_LOADING"
      using get get_write_buffer_Some [OF emp] len wN by auto
    then have "reachable N g (fst (mp_commit_write_buffer (st_request_exec_move X) MOVE_TYPE_COMMAND
        (s1\<lparr>bf := (bf s1)[h := ?b]\<rparr>) (ext m)))"
      by (intro reachable_get_populate_commit [OF re N get]) (simp_all add: copy_axis_keeps)
    then show ?thesis
      using get by (simp add: mp_queue_command_def Let_def split_beta)
  qed
qed

section \<open>The claims about the buffer pool\<close>

lemma run_pool_reachable: "reachable 4 0 run_pool_5"
proof -
  have r0: "reachable 4 0 run_pool_0"
    unfolding run_pool_0_def by (rule reach_init)
  have "mp_get_write_buffer run_pool_0 = (Some 0, run_pool_1)" by code_simp
  with r0 have r1: "reachable 4 (Suc 0) run_pool_1" by (rule reach_get)
  have "mp_get_write_buffer run_pool_1 = (Some 1, run_pool_2)" by code_simp
  with r1 have r2: "reachable 4 (Suc (Suc 0)) run_pool_2" by (rule reach_get)
  from r2 have r3: "reachable 4 (Suc 0) run_pool_3"
    unfolding run_pool_3_def by (rule reach_commit)
  from r3 have r4: "reachable 4 0 run_pool_4"
    unfolding run_pool_4_def by (rule reach_commit)
  from r4 show ?thesis
    unfolding run_pool_5_def by (rule reach_get_run)
qed

text \<open>
  C1. In every pool that the queue operations reach from \<^verbatim>\<open>mp_init_buffers\<close>, each called
  under its precondition (and with the producer filling in the write buffers it holds),
  \<^verbatim>\<open>buffers_available\<close> plus the number of blocks that are Loading, Queued, Pending or
  Running is \<^verbatim>\<open>PLANNER_BUFFER_POOL_SIZE\<close>.
\<close>

theorem C1_buffers_available_invariant:
  assumes "reachable N g s" "0 < N" "N \<le> 255"
  shows "unat (buffers_available s) + count_active (bf s) = N"
  using reachable_pool_inv [OF assms] by (simp add: pool_inv_def)

theorem C1_buffers_available_invariant_witness:
  "reachable 4 0 run_pool_5 \<and> (0::nat) < 4 \<and> (4::nat) \<le> 255 \<and>
   unat (buffers_available run_pool_5) + count_active (bf run_pool_5) = 4 \<and>
   unat (buffers_available run_pool_5) = 2"
proof -
  have a: "(0::nat) < 4" and b: "(4::nat) \<le> 255" by simp_all
  have c: "count_active (bf run_pool_5) = 2" by code_simp
  from C1_buffers_available_invariant [OF run_pool_reachable a b] c run_pool_reachable
  show ?thesis by simp
qed

text \<open>
  C2. \<^verbatim>\<open>mp_get_write_buffer\<close> returns a block exactly when the block at the write pointer
  is Empty. Then it returns that block, zeroed but for its two links and with state
  Loading, leaves the other blocks alone, decrements \<^verbatim>\<open>buffers_available\<close> and moves the
  write pointer to the next block. Otherwise it returns null and changes nothing. On a
  freshly initialised pool \<open>N\<close> calls in a row return the \<open>N\<close> blocks, all different, and
  the next call returns null.
\<close>

theorem C2_get_write_buffer:
  assumes "ring_ok N (s :: ('f::zero, 'c) mpBufferPool)" and "N \<le> 255"
  shows "(fst (mp_get_write_buffer s) \<noteq> None \<longleftrightarrow>
            buffer_state (bf s ! w s) = MP_BUFFER_EMPTY) \<and>
         (buffer_state (bf s ! w s) = MP_BUFFER_EMPTY \<longrightarrow>
            (let s' = snd (mp_get_write_buffer s)
             in fst (mp_get_write_buffer s) = Some (w s) \<and>
                bf s' ! w s = mpBuf_zero\<lparr>nx := nx (bf s ! w s), pv := pv (bf s ! w s),
                                         buffer_state := MP_BUFFER_LOADING\<rparr> \<and>
                length (bf s') = length (bf s) \<and>
                (\<forall>i<N. i \<noteq> w s \<longrightarrow> bf s' ! i = bf s ! i) \<and>
                buffers_available s' = buffers_available s - 1 \<and>
                w s' = nx (bf s ! w s) \<and> w s' = bump N (w s) \<and> q s' = q s \<and> r s' = r s)) \<and>
         (buffer_state (bf s ! w s) \<noteq> MP_BUFFER_EMPTY \<longrightarrow> mp_get_write_buffer s = (None, s)) \<and>
         (\<exists>s'. get_write_buffers N (mp_init_buffers N :: ('f, 'c) mpBufferPool) =
                  Some ([0..<N], s') \<and>
                distinct [0..<N] \<and> length [0..<N] = N \<and>
                mp_get_write_buffer s' = (None, s'))"
proof (intro conjI)
  have N: "0 < N" and len: "length (bf s) = N" and wN: "w s < N"
    using assms by (auto simp: ring_ok_def)
  show "(fst (mp_get_write_buffer s) \<noteq> None \<longleftrightarrow>
            buffer_state (bf s ! w s) = MP_BUFFER_EMPTY)"
    by (simp add: mp_get_write_buffer_def Let_def)
  show "buffer_state (bf s ! w s) = MP_BUFFER_EMPTY \<longrightarrow>
         (let s' = snd (mp_get_write_buffer s)
          in fst (mp_get_write_buffer s) = Some (w s) \<and>
             bf s' ! w s = mpBuf_zero\<lparr>nx := nx (bf s ! w s), pv := pv (bf s ! w s),
                                      buffer_state := MP_BUFFER_LOADING\<rparr> \<and>
             length (bf s') = length (bf s) \<and>
             (\<forall>i<N. i \<noteq> w s \<longrightarrow> bf s' ! i = bf s ! i) \<and>
             buffers_available s' = buffers_available s - 1 \<and>
             w s' = nx (bf s ! w s) \<and> w s' = bump N (w s) \<and> q s' = q s \<and> r s' = r s)"
    using assms len wN by (auto simp: get_write_buffer_Some Let_def ring_ok_def)
  show "buffer_state (bf s ! w s) \<noteq> MP_BUFFER_EMPTY \<longrightarrow> mp_get_write_buffer s = (None, s)"
    by (simp add: get_write_buffer_None)
  have "\<exists>s'. get_write_buffers N (mp_init_buffers N :: ('f, 'c) mpBufferPool) =
           Some ([0..<0 + N], s') \<and> ring_ok N s' \<and> w s' = (0 + N) mod N \<and>
           (\<forall>i<N. buffer_state (bf s' ! i) =
              (if 0 \<le> i \<and> i < 0 + N then MP_BUFFER_LOADING
               else buffer_state (bf (mp_init_buffers N :: ('f, 'c) mpBufferPool) ! i)))"
    by (rule get_write_buffers_run) (simp_all add: ring_ok_init N init_fields init_state)
  then obtain s' where s': "get_write_buffers N (mp_init_buffers N :: ('f, 'c) mpBufferPool) =
           Some ([0..<N], s')" "w s' = 0" "\<forall>i<N. buffer_state (bf s' ! i) = MP_BUFFER_LOADING"
    by auto
  have "buffer_state (bf s' ! w s') \<noteq> MP_BUFFER_EMPTY"
    using s'(2,3) N by simp
  then have "mp_get_write_buffer s' = (None, s')"
    by (rule get_write_buffer_None)
  with s'(1) show "\<exists>s'. get_write_buffers N (mp_init_buffers N :: ('f, 'c) mpBufferPool) =
                Some ([0..<N], s') \<and>
              distinct [0..<N] \<and> length [0..<N] = N \<and>
              mp_get_write_buffer s' = (None, s')"
    by auto
qed

theorem C2_get_write_buffer_witness:
  "ring_ok 4 run_pool_1 \<and> (4::nat) \<le> 255 \<and>
   buffer_state (bf run_pool_1 ! w run_pool_1) = MP_BUFFER_EMPTY \<and>
   fst (mp_get_write_buffer run_pool_1) = Some 1 \<and>
   buffer_state (bf (snd (mp_get_write_buffer run_pool_1)) ! 1) = MP_BUFFER_LOADING \<and>
   w (snd (mp_get_write_buffer run_pool_1)) = 2 \<and>
   buffers_available (snd (mp_get_write_buffer run_pool_1)) = buffers_available run_pool_1 - 1 \<and>
   (\<exists>s'. get_write_buffers 4 (mp_init_buffers 4 :: (int, nat) mpBufferPool) =
            Some ([0..<4], s') \<and> mp_get_write_buffer s' = (None, s'))"
proof -
  have a: "ring_ok 4 run_pool_1" by code_simp
  have b: "(4::nat) \<le> 255" by simp
  have c: "buffer_state (bf run_pool_1 ! w run_pool_1) = MP_BUFFER_EMPTY" by code_simp
  have d: "w run_pool_1 = 1" by code_simp
  have e: "bump 4 1 = 2" by (simp add: bump_def)
  from C2_get_write_buffer [OF a b] a c d e show ?thesis
    by (simp add: Let_def)
qed

text \<open>
  C3. \<^verbatim>\<open>mp_free_run_buffer\<close> zeroes the block at the run pointer but for its links, which
  makes it Empty, moves the run pointer to the next block, makes that block Pending if
  (and only if) it is Queued, leaves the other blocks alone, increments
  \<^verbatim>\<open>buffers_available\<close>, and returns whether the write pointer equals the new run pointer.
  In a reachable pool that is the case exactly when no block is left that is not Empty;
  with a Queued block behind the freed one the result is false.
\<close>

theorem C3_free_run_buffer:
  assumes "ring_ok N (s :: ('f::zero, 'c) mpBufferPool)"
  shows "(let r' = nx (bf s ! r s); s' = snd (mp_free_run_buffer s)
          in r' = bump N (r s) \<and> r s' = r' \<and> w s' = w s \<and> q s' = q s \<and>
             length (bf s') = length (bf s) \<and>
             buffers_available s' = buffers_available s + 1 \<and>
             fst (mp_free_run_buffer s) = (w s = r') \<and>
             bf s' ! r s = mpBuf_zero\<lparr>nx := nx (bf s ! r s), pv := pv (bf s ! r s)\<rparr> \<and>
             buffer_state (bf s' ! r s) = MP_BUFFER_EMPTY \<and>
             (r' \<noteq> r s \<longrightarrow>
                bf s' ! r' = (if buffer_state (bf s ! r') = MP_BUFFER_QUEUED
                              then (bf s ! r')\<lparr>buffer_state := MP_BUFFER_PENDING\<rparr>
                              else bf s ! r')) \<and>
             (\<forall>i<N. i \<noteq> r s \<and> i \<noteq> r' \<longrightarrow> bf s' ! i = bf s ! i) \<and>
             (\<forall>g h. reachable N g s \<and> N \<le> 255 \<and> fst (mp_get_run_buffer s) = Some h \<longrightarrow>
                (fst (mp_free_run_buffer s) \<longleftrightarrow>
                   (\<forall>i<N. buffer_state (bf s' ! i) = MP_BUFFER_EMPTY)) \<and>
                (r' \<noteq> r s \<and> buffer_state (bf s ! r') = MP_BUFFER_QUEUED \<longrightarrow>
                   \<not> fst (mp_free_run_buffer s))))"
proof -
  have N: "0 < N" and rN: "r s < N" and nxr: "nx (bf s ! r s) = bump N (r s)"
    using assms by (auto simp: ring_ok_def)
  have bN: "bump N (r s) < N" using N by (rule bump_less)
  have glob: "(fst (mp_free_run_buffer s) \<longleftrightarrow>
        (\<forall>i<N. buffer_state (bf (snd (mp_free_run_buffer s)) ! i) = MP_BUFFER_EMPTY)) \<and>
       (bump N (r s) \<noteq> r s \<and> buffer_state (bf s ! bump N (r s)) = MP_BUFFER_QUEUED \<longrightarrow>
          \<not> fst (mp_free_run_buffer s))"
    if "reachable N g s" "N \<le> 255" "fst (mp_get_run_buffer s) = Some h" for g h
  proof -
    have inv: "pool_inv N g s" using that(1) N that(2) by (rule reachable_pool_inv)
    have iff: "fst (mp_free_run_buffer s) \<longleftrightarrow>
        (\<forall>i<N. buffer_state (bf (snd (mp_free_run_buffer s)) ! i) = MP_BUFFER_EMPTY)"
      using inv that(3) by (rule free_run_drained)
    have "\<not> fst (mp_free_run_buffer s)"
      if "bump N (r s) \<noteq> r s" "buffer_state (bf s ! bump N (r s)) = MP_BUFFER_QUEUED"
    proof
      assume "fst (mp_free_run_buffer s)"
      with iff bN have "buffer_state (bf (snd (mp_free_run_buffer s)) ! bump N (r s)) = MP_BUFFER_EMPTY"
        by simp
      then show False
        using free_run_states [OF assms bN] that by simp
    qed
    with iff show ?thesis by simp
  qed
  then have glob': "\<forall>g h. reachable N g s \<and> N \<le> 255 \<and> fst (mp_get_run_buffer s) = Some h \<longrightarrow>
      (fst (mp_free_run_buffer s) \<longleftrightarrow>
         (\<forall>i<N. buffer_state (bf (snd (mp_free_run_buffer s)) ! i) = MP_BUFFER_EMPTY)) \<and>
      (bump N (r s) \<noteq> r s \<and> buffer_state (bf s ! bump N (r s)) = MP_BUFFER_QUEUED \<longrightarrow>
         \<not> fst (mp_free_run_buffer s))"
    by blast
  have loc: "let r' = nx (bf s ! r s); s' = snd (mp_free_run_buffer s)
          in r' = bump N (r s) \<and> r s' = r' \<and> w s' = w s \<and> q s' = q s \<and>
             length (bf s') = length (bf s) \<and>
             buffers_available s' = buffers_available s + 1 \<and>
             fst (mp_free_run_buffer s) = (w s = r') \<and>
             bf s' ! r s = mpBuf_zero\<lparr>nx := nx (bf s ! r s), pv := pv (bf s ! r s)\<rparr> \<and>
             buffer_state (bf s' ! r s) = MP_BUFFER_EMPTY \<and>
             (r' \<noteq> r s \<longrightarrow>
                bf s' ! r' = (if buffer_state (bf s ! r') = MP_BUFFER_QUEUED
                              then (bf s ! r')\<lparr>buffer_state := MP_BUFFER_PENDING\<rparr>
                              else bf s ! r')) \<and>
             (\<forall>i<N. i \<noteq> r s \<and> i \<noteq> r' \<longrightarrow> bf s' ! i = bf s ! i)"
    by (rule free_run_buffer_local [OF assms])
  show ?thesis
    unfolding Let_def
    using loc [unfolded Let_def] glob' [folded nxr] by blast
qed

theorem C3_free_run_buffer_witness:
  "ring_ok 4 run_pool_5 \<and> reachable 4 0 run_pool_5 \<and> (4::nat) \<le> 255 \<and>
   fst (mp_get_run_buffer run_pool_5) = Some 0 \<and>
   nx (bf run_pool_5 ! r run_pool_5) \<noteq> r run_pool_5 \<and>
   buffer_state (bf run_pool_5 ! nx (bf run_pool_5 ! r run_pool_5)) = MP_BUFFER_QUEUED \<and>
   \<not> fst (mp_free_run_buffer run_pool_5) \<and>
   r (snd (mp_free_run_buffer run_pool_5)) = 1 \<and>
   buffer_state (bf (snd (mp_free_run_buffer run_pool_5)) ! 0) = MP_BUFFER_EMPTY \<and>
   buffer_state (bf (snd (mp_free_run_buffer run_pool_5)) ! 1) = MP_BUFFER_PENDING \<and>
   buffers_available (snd (mp_free_run_buffer run_pool_5)) = buffers_available run_pool_5 + 1"
proof -
  have a: "ring_ok 4 run_pool_5" by code_simp
  have b: "fst (mp_get_run_buffer run_pool_5) = Some 0" by code_simp
  have c: "r run_pool_5 = 0" "nx (bf run_pool_5 ! 0) = 1"
    "buffer_state (bf run_pool_5 ! 1) = MP_BUFFER_QUEUED" by code_simp+
  from C3_free_run_buffer [OF a, unfolded Let_def] have
    "r (snd (mp_free_run_buffer run_pool_5)) = nx (bf run_pool_5 ! r run_pool_5)"
    "buffer_state (bf (snd (mp_free_run_buffer run_pool_5)) ! r run_pool_5) = MP_BUFFER_EMPTY"
    "buffers_available (snd (mp_free_run_buffer run_pool_5)) = buffers_available run_pool_5 + 1"
    "nx (bf run_pool_5 ! r run_pool_5) \<noteq> r run_pool_5 \<longrightarrow>
     bf (snd (mp_free_run_buffer run_pool_5)) ! nx (bf run_pool_5 ! r run_pool_5) =
       (if buffer_state (bf run_pool_5 ! nx (bf run_pool_5 ! r run_pool_5)) = MP_BUFFER_QUEUED
        then (bf run_pool_5 ! nx (bf run_pool_5 ! r run_pool_5))\<lparr>buffer_state := MP_BUFFER_PENDING\<rparr>
        else bf run_pool_5 ! nx (bf run_pool_5 ! r run_pool_5))"
    "reachable 4 0 run_pool_5 \<and> (4::nat) \<le> 255 \<and> fst (mp_get_run_buffer run_pool_5) = Some 0 \<longrightarrow>
     (nx (bf run_pool_5 ! r run_pool_5) \<noteq> r run_pool_5 \<and>
      buffer_state (bf run_pool_5 ! nx (bf run_pool_5 ! r run_pool_5)) = MP_BUFFER_QUEUED \<longrightarrow>
      \<not> fst (mp_free_run_buffer run_pool_5))"
    by blast+
  with a b c run_pool_reachable show ?thesis by simp
qed

text \<open>
  C4. \<^verbatim>\<open>mp_get_run_buffer\<close> makes the block at the run pointer Running and returns it when
  the block is Queued or Pending; it returns the block unchanged when it is Running
  already; it returns null and changes nothing in every other state. A second call
  right after a call that returned a block returns the same block, Running both times.
\<close>

theorem C4_get_run_buffer:
  assumes "r s < length (bf s)"
  shows "(buffer_state (bf s ! r s) = MP_BUFFER_QUEUED \<or> buffer_state (bf s ! r s) = MP_BUFFER_PENDING \<longrightarrow>
            mp_get_run_buffer s =
              (Some (r s), s\<lparr>bf := (bf s)[r s := (bf s ! r s)\<lparr>buffer_state := MP_BUFFER_RUNNING\<rparr>]\<rparr>)) \<and>
         (buffer_state (bf s ! r s) = MP_BUFFER_RUNNING \<longrightarrow> mp_get_run_buffer s = (Some (r s), s)) \<and>
         (buffer_state (bf s ! r s) \<noteq> MP_BUFFER_QUEUED \<and> buffer_state (bf s ! r s) \<noteq> MP_BUFFER_PENDING \<and>
          buffer_state (bf s ! r s) \<noteq> MP_BUFFER_RUNNING \<longrightarrow> mp_get_run_buffer s = (None, s)) \<and>
         (\<forall>h. fst (mp_get_run_buffer s) = Some h \<longrightarrow>
            (let s1 = snd (mp_get_run_buffer s)
             in h = r s \<and> buffer_state (bf s1 ! h) = MP_BUFFER_RUNNING \<and>
                mp_get_run_buffer s1 = (Some h, s1) \<and>
                buffer_state (bf (snd (mp_get_run_buffer s1)) ! h) = MP_BUFFER_RUNNING))"
  using assms by (auto simp: mp_get_run_buffer_def Let_def)

theorem C4_get_run_buffer_witness:
  "r run_pool_4 < length (bf run_pool_4) \<and>
   buffer_state (bf run_pool_4 ! r run_pool_4) = MP_BUFFER_QUEUED \<and>
   fst (mp_get_run_buffer run_pool_4) = Some 0 \<and>
   buffer_state (bf (snd (mp_get_run_buffer run_pool_4)) ! 0) = MP_BUFFER_RUNNING \<and>
   mp_get_run_buffer (snd (mp_get_run_buffer run_pool_4)) =
     (Some 0, snd (mp_get_run_buffer run_pool_4)) \<and>
   buffer_state (bf run_pool_0 ! r run_pool_0) = MP_BUFFER_EMPTY \<and>
   mp_get_run_buffer run_pool_0 = (None, run_pool_0)"
proof -
  have a: "r run_pool_4 < length (bf run_pool_4)" by code_simp
  have b: "buffer_state (bf run_pool_4 ! r run_pool_4) = MP_BUFFER_QUEUED" by code_simp
  have c: "r run_pool_4 = 0" by code_simp
  have a0: "r run_pool_0 < length (bf run_pool_0)" by code_simp
  have b0: "buffer_state (bf run_pool_0 ! r run_pool_0) = MP_BUFFER_EMPTY" by code_simp
  from C4_get_run_buffer [OF a] b c
  have f: "fst (mp_get_run_buffer run_pool_4) = Some 0" by simp
  from C4_get_run_buffer [OF a, unfolded Let_def] f
  have g: "buffer_state (bf (snd (mp_get_run_buffer run_pool_4)) ! 0) = MP_BUFFER_RUNNING \<and>
      mp_get_run_buffer (snd (mp_get_run_buffer run_pool_4)) =
        (Some 0, snd (mp_get_run_buffer run_pool_4))"
    by blast
  from C4_get_run_buffer [OF a0] b0
  have h: "mp_get_run_buffer run_pool_0 = (None, run_pool_0)" by simp
  from a b f g b0 h show ?thesis by simp
qed

lemma ctl_eq_D:
  assumes "ctl t = ctl t'"
  shows "w t = w t'" "q t = q t'" "r t = r t'" "buffers_available t = buffers_available t'"
    "length (bf t) = length (bf t')"
    "\<And>i. i < length (bf t') \<Longrightarrow> pv (bf t ! i) = pv (bf t' ! i) \<and> nx (bf t ! i) = nx (bf t' ! i) \<and>
        buffer_state (bf t ! i) = buffer_state (bf t' ! i)"
proof -
  from assms have m: "map (\<lambda>b. (pv b, nx b, buffer_state b)) (bf t) =
      map (\<lambda>b. (pv b, nx b, buffer_state b)) (bf t')"
    by (simp add: ctl_def)
  show "w t = w t'" "q t = q t'" "r t = r t'" "buffers_available t = buffers_available t'"
    using assms by (simp_all add: ctl_def)
  from m show len: "length (bf t) = length (bf t')" by (rule map_eq_imp_length_eq)
  fix i assume i: "i < length (bf t')"
  from m have "map (\<lambda>b. (pv b, nx b, buffer_state b)) (bf t) ! i =
      map (\<lambda>b. (pv b, nx b, buffer_state b)) (bf t') ! i"
    by simp
  with i len show "pv (bf t ! i) = pv (bf t' ! i) \<and> nx (bf t ! i) = nx (bf t' ! i) \<and>
        buffer_state (bf t ! i) = buffer_state (bf t' ! i)"
    by simp
qed

lemma ctl_eq_ring_ok:
  assumes "ctl t = ctl t'" "ring_ok N t'"
  shows "ring_ok N t"
  using assms(2) ctl_eq_D [OF assms(1)] by (simp add: ring_ok_def)

lemma ctl_unget_cong:
  assumes e: "ctl t = ctl t'" and ok: "ring_ok N t'"
  shows "ctl (mp_unget_write_buffer t) = ctl (mp_unget_write_buffer t')"
proof -
  note d = ctl_eq_D [OF e]
  have len: "length (bf t') = N" and wN: "w t' < N" and N: "0 < N"
    and pvw: "pv (bf t' ! w t') = ring_pv N (w t')"
    using ok by (auto simp: ring_ok_def)
  have hN: "pv (bf t' ! w t') < N" using pvw ring_pv_less [OF N wN] by simp
  have h: "pv (bf t ! w t) = pv (bf t' ! w t')" using d(1) d(6) [of "w t'"] wN len by simp
  have "map (\<lambda>b. (pv b, nx b, buffer_state b)) (bf (mp_unget_write_buffer t)) =
        map (\<lambda>b. (pv b, nx b, buffer_state b)) (bf (mp_unget_write_buffer t'))"
    using d(5) d(6) hN len h
    by (auto simp: mp_unget_write_buffer_def Let_def list_eq_iff_nth_eq nth_list_update)
  then show ?thesis
    using d(1-4) h by (simp add: ctl_def mp_unget_write_buffer_def Let_def)
qed

lemma ctl_unget_get:
  assumes ok: "ring_ok N s" and emp: "buffer_state (bf s ! w s) = MP_BUFFER_EMPTY"
  shows "ctl (mp_unget_write_buffer (snd (mp_get_write_buffer s))) = ctl s"
proof -
  have len: "length (bf s) = N" and wN: "w s < N" and N: "0 < N"
    and nxw: "nx (bf s ! w s) = bump N (w s)"
    and links: "\<And>i. i < N \<Longrightarrow> nx (bf s ! i) = bump N i \<and> pv (bf s ! i) = ring_pv N i"
    using ok by (auto simp: ring_ok_def)
  let ?s1 = "snd (mp_get_write_buffer s)"
  have ok1: "ring_ok N ?s1" by (rule ring_ok_get [OF ok])
  have w1: "w ?s1 = bump N (w s)"
    using nxw by (simp add: get_write_buffer_Some [OF emp])
  have "pv (bf ?s1 ! w ?s1) = ring_pv N (w ?s1)"
    using ok1 by (simp add: ring_ok_def)
  then have h: "pv (bf ?s1 ! w ?s1) = w s"
    using w1 ring_pv_bump [OF wN] by simp
  have "map (\<lambda>b. (pv b, nx b, buffer_state b)) (bf (mp_unget_write_buffer ?s1)) =
        map (\<lambda>b. (pv b, nx b, buffer_state b)) (bf s)"
    unfolding mp_unget_write_buffer_def Let_def h
    using len wN emp
    by (auto simp: get_write_buffer_Some [OF emp] list_eq_iff_nth_eq nth_list_update)
  moreover have "w (mp_unget_write_buffer ?s1) = w s"
    unfolding mp_unget_write_buffer_def Let_def h by simp
  moreover have "buffers_available (mp_unget_write_buffer ?s1) = buffers_available s"
    by (simp add: mp_unget_write_buffer_def Let_def get_write_buffer_Some [OF emp])
  moreover have "q (mp_unget_write_buffer ?s1) = q s" "r (mp_unget_write_buffer ?s1) = r s"
    by (simp_all add: mp_unget_write_buffer_def Let_def get_write_buffer_Some [OF emp])
  ultimately show ?thesis by (simp add: ctl_def)
qed

lemma unget_write_buffers_snoc:
  "unget_write_buffers (Suc k) s =
     (let (us, t) = unget_write_buffers k s; t' = mp_unget_write_buffer t
      in (us @ [w t'], t'))"
proof (induction k arbitrary: s)
  case 0
  then show ?case by (simp add: Let_def)
next
  case (Suc k)
  show ?case
    using Suc [of "mp_unget_write_buffer s"] by (simp add: Let_def split_beta)
qed

lemma gets_ungets:
  assumes "ring_ok N s" "get_write_buffers k s = Some (hs, s1)"
    "unget_write_buffers k s1 = (us, s2)"
  shows "us = rev hs \<and> ctl s2 = ctl s"
  using assms
proof (induction k arbitrary: s hs us s2)
  case 0
  then show ?case by simp
next
  case (Suc k)
  from Suc.prems(2) obtain h sa hs' where g: "mp_get_write_buffer s = (Some h, sa)"
    and gs: "get_write_buffers k sa = Some (hs', s1)" and hs: "hs = h # hs'"
    by (auto split: prod.splits option.splits)
  have emp: "buffer_state (bf s ! w s) = MP_BUFFER_EMPTY"
    using g by (auto simp: mp_get_write_buffer_def split: if_splits)
  have sa: "sa = snd (mp_get_write_buffer s)" using g by simp
  have hw: "h = w s" using g get_write_buffer_Some [OF emp] by simp
  have oka: "ring_ok N sa" unfolding sa by (rule ring_ok_get [OF Suc.prems(1)])
  obtain us' t where u: "unget_write_buffers k s1 = (us', t)" by (cases "unget_write_buffers k s1")
  from Suc.IH [OF oka gs u] have us': "us' = rev hs'" and ct: "ctl t = ctl sa" by simp_all
  from Suc.prems(3) have "(let (us, t) = unget_write_buffers k s1; t' = mp_unget_write_buffer t
      in (us @ [w t'], t')) = (us, s2)"
    by (simp only: unget_write_buffers_snoc)
  with u have us: "us = us' @ [w (mp_unget_write_buffer t)]"
    and s2: "s2 = mp_unget_write_buffer t"
    by (auto simp: Let_def)
  have "ctl (mp_unget_write_buffer t) = ctl (mp_unget_write_buffer sa)"
    by (rule ctl_unget_cong [OF ct oka])
  also have "\<dots> = ctl s" unfolding sa by (rule ctl_unget_get [OF Suc.prems(1) emp])
  finally have c2: "ctl s2 = ctl s" by (simp add: s2)
  then have "w s2 = w s" by (simp add: ctl_def)
  with us us' hs hw s2 c2 show ?case by simp
qed

text \<open>
  C5. After a call of \<^verbatim>\<open>mp_get_write_buffer\<close> that returned a block,
  \<^verbatim>\<open>mp_unget_write_buffer\<close> moves the write pointer back to the block before it, which
  is the block that was handed out, makes that block Empty and increments
  \<^verbatim>\<open>buffers_available\<close>: the pointers, the counter and the state and links of every block
  are what they were before the get. \<open>k\<close> such gets in a row are undone by \<open>k\<close> ungets,
  which give the blocks back last one first.
\<close>

theorem C5_unget_write_buffer:
  assumes "ring_ok N (s :: ('f::zero, 'c) mpBufferPool)"
  shows "(\<forall>h s1. mp_get_write_buffer s = (Some h, s1) \<longrightarrow>
            (let s2 = mp_unget_write_buffer s1
             in w s2 = pv (bf s1 ! w s1) \<and> w s2 = ring_pv N (w s1) \<and> w s2 = h \<and> w s2 = w s \<and>
                buffer_state (bf s2 ! w s2) = MP_BUFFER_EMPTY \<and>
                buffer_state (bf s2 ! w s2) = buffer_state (bf s ! w s) \<and>
                buffers_available s2 = buffers_available s1 + 1 \<and>
                buffers_available s2 = buffers_available s \<and>
                ctl s2 = ctl s)) \<and>
         (\<forall>k hs s1 us s2.
            get_write_buffers k s = Some (hs, s1) \<and> unget_write_buffers k s1 = (us, s2) \<longrightarrow>
            us = rev hs \<and> ctl s2 = ctl s \<and> buffers_available s2 = buffers_available s)"
proof (intro conjI allI impI)
  fix h s1 assume g: "mp_get_write_buffer s = (Some h, s1)"
  have emp: "buffer_state (bf s ! w s) = MP_BUFFER_EMPTY"
    using g by (auto simp: mp_get_write_buffer_def split: if_splits)
  have s1: "s1 = snd (mp_get_write_buffer s)" using g by simp
  have hw: "h = w s" using g get_write_buffer_Some [OF emp] by simp
  have ok1: "ring_ok N s1" unfolding s1 by (rule ring_ok_get [OF assms])
  have len: "length (bf s) = N" and wN: "w s < N"
    using assms by (auto simp: ring_ok_def)
  have c: "ctl (mp_unget_write_buffer s1) = ctl s"
    unfolding s1 by (rule ctl_unget_get [OF assms emp])
  note d = ctl_eq_D [OF c]
  have a1: "w (mp_unget_write_buffer s1) = pv (bf s1 ! w s1)"
    by (simp add: mp_unget_write_buffer_def Let_def)
  have a2: "pv (bf s1 ! w s1) = ring_pv N (w s1)"
    using ok1 by (simp add: ring_ok_def)
  have a3: "buffers_available (mp_unget_write_buffer s1) = buffers_available s1 + 1"
    by (simp add: mp_unget_write_buffer_def Let_def)
  show "let s2 = mp_unget_write_buffer s1
        in w s2 = pv (bf s1 ! w s1) \<and> w s2 = ring_pv N (w s1) \<and> w s2 = h \<and> w s2 = w s \<and>
           buffer_state (bf s2 ! w s2) = MP_BUFFER_EMPTY \<and>
           buffer_state (bf s2 ! w s2) = buffer_state (bf s ! w s) \<and>
           buffers_available s2 = buffers_available s1 + 1 \<and>
           buffers_available s2 = buffers_available s \<and>
           ctl s2 = ctl s"
    using a1 a2 a3 c d(1,4) d(6) [of "w s"] hw emp wN len by (simp add: Let_def)
next
  fix k hs s1 us s2
  assume a: "get_write_buffers k s = Some (hs, s1) \<and> unget_write_buffers k s1 = (us, s2)"
  then have "us = rev hs \<and> ctl s2 = ctl s"
    using gets_ungets [OF assms, of k hs s1 us s2] by simp
  then show "us = rev hs" "ctl s2 = ctl s" "buffers_available s2 = buffers_available s"
    by (simp_all add: ctl_def)
qed

theorem C5_unget_write_buffer_witness:
  "ring_ok 4 run_pool_1 \<and>
   get_write_buffers 3 run_pool_1 = Some ([1, 2, 3], snd (the (get_write_buffers 3 run_pool_1))) \<and>
   fst (unget_write_buffers 3 (snd (the (get_write_buffers 3 run_pool_1)))) = [3, 2, 1] \<and>
   ctl (snd (unget_write_buffers 3 (snd (the (get_write_buffers 3 run_pool_1))))) = ctl run_pool_1 \<and>
   mp_get_write_buffer run_pool_1 = (Some 1, run_pool_2) \<and>
   w (mp_unget_write_buffer run_pool_2) = w run_pool_1 \<and>
   buffers_available (mp_unget_write_buffer run_pool_2) = buffers_available run_pool_1"
proof -
  have a: "ring_ok 4 run_pool_1" by code_simp
  have b: "get_write_buffers 3 run_pool_1 =
      Some ([1, 2, 3], snd (the (get_write_buffers 3 run_pool_1)))" by code_simp
  obtain us s2 where c: "unget_write_buffers 3 (snd (the (get_write_buffers 3 run_pool_1))) = (us, s2)"
    by (cases "unget_write_buffers 3 (snd (the (get_write_buffers 3 run_pool_1)))")
  have g: "mp_get_write_buffer run_pool_1 = (Some 1, run_pool_2)" by code_simp
  from C5_unget_write_buffer [OF a] b c
  have "us = rev [1, 2, 3] \<and> ctl s2 = ctl run_pool_1" by blast
  moreover from C5_unget_write_buffer [OF a, unfolded Let_def] g
  have "w (mp_unget_write_buffer run_pool_2) = w run_pool_1 \<and>
      buffers_available (mp_unget_write_buffer run_pool_2) = buffers_available run_pool_1"
    by blast
  ultimately show ?thesis using a b c g by simp
qed

section \<open>The claims about commands, dwells and positions\<close>

lemma foldl_copy_axis:
  assumes "n \<le> length (value_vector b)" "n \<le> length (flag_vector b)"
  shows "foldl (copy_axis memory v f) b [0..<n] =
     b\<lparr>value_vector := map (\<lambda>axis. memory (v + axis)) [0..<n] @ drop n (value_vector b),
       flag_vector := map (\<lambda>axis. memory (f + axis)) [0..<n] @ drop n (flag_vector b)\<rparr>"
  using assms
proof (induction n)
  case 0
  then show ?case by simp
next
  case (Suc n)
  have upd: "(map g [0..<n] @ drop n xs)[n := y] = map g [0..<n] @ y # drop (Suc n) xs"
    if "n < length xs" for g :: "nat \<Rightarrow> 'a" and xs y
    using that by (simp add: list_update_append Cons_nth_drop_Suc [symmetric])
  from Suc show ?case
    by (simp add: copy_axis_def upd)
qed

text \<open>
  C6. When \<^verbatim>\<open>mp_queue_command\<close> gets a write buffer, it copies elements 0 to \<^verbatim>\<open>AXES\<close> - 1
  of the two arrays of the caller into that block, and the block is the one it commits
  (no other write buffer being uncommitted when the command is queued). Whatever is
  written to the memory of the caller after the call, \<^verbatim>\<open>mp_runtime_command\<close> on that block
  calls the stored \<^verbatim>\<open>cm_func\<close> with the two vectors as they were when the command was
  queued.
\<close>

theorem C6_queue_command_copies:
  assumes "ring_ok N (mb m)"
    and "buffer_state (bf (mb m) ! w (mb m)) = MP_BUFFER_EMPTY"
  shows "(let h = w (mb m);
              m1 = mp_queue_command X cm_exec value flag m;
              values = map (\<lambda>axis. mem m (value + axis)) [0..<AXES];
              flags = map (\<lambda>axis. mem m (flag + axis)) [0..<AXES]
          in value_vector (bf (mb m1) ! h) = values \<and>
             flag_vector (bf (mb m1) ! h) = flags \<and>
             cm_func (bf (mb m1) ! h) = Some cm_exec \<and>
             bf_func (bf (mb m1) ! h) = EXEC_COMMAND \<and>
             move_type (bf (mb m1) ! h) = MOVE_TYPE_COMMAND \<and>
             (q (mb m) = h \<longrightarrow>
                buffer_state (bf (mb m1) ! h) = MP_BUFFER_QUEUED \<and> q (mb m1) = bump N h) \<and>
             mem m1 = mem m \<and>
             (\<forall>memory'. \<exists>m2.
                mp_runtime_command X h (m1\<lparr>mem := memory'\<rparr>) = Some (STAT_OK, m2) \<and>
                ext m2 = (if fst (mp_free_run_buffer (mb m1)) then cm_cycle_end X else (\<lambda>e. e))
                           (cm_call X cm_exec values flags (ext m1)) \<and>
                mem m2 = memory'))"
proof -
  let ?s = "mb m"
  have len: "length (bf ?s) = N" and wN: "w ?s < N" and qN: "q ?s < N"
    and nxw: "nx (bf ?s ! w ?s) = bump N (w ?s)"
    using assms(1) by (auto simp: ring_ok_def)
  note g = get_write_buffer_Some [OF assms(2)]
  let ?b0 = "mpBuf_zero\<lparr>nx := nx (bf ?s ! w ?s), pv := pv (bf ?s ! w ?s),
      buffer_state := MP_BUFFER_LOADING, move_type := MOVE_TYPE_COMMAND,
      bf_func := EXEC_COMMAND, cm_func := Some cm_exec\<rparr>"
  let ?b1 = "?b0\<lparr>value_vector := map (\<lambda>axis. mem m (value + axis)) [0..<AXES],
      flag_vector := map (\<lambda>axis. mem m (flag + axis)) [0..<AXES]\<rparr>"
  have cp: "foldl (copy_axis (mem m) value flag) ?b0 [0..<AXES] = ?b1"
    by (subst foldl_copy_axis) (simp_all add: mpBuf_zero_def)
  have blk: "bf (mb (mp_queue_command X cm_exec value flag m)) ! w ?s =
      (if q ?s = w ?s
       then ?b1\<lparr>move_type := MOVE_TYPE_COMMAND, move_state := MOVE_NEW,
                buffer_state := MP_BUFFER_QUEUED\<rparr>
       else ?b1)"
    using len wN qN cp
    by (simp add: mp_queue_command_def g mp_commit_write_buffer_def Let_def)
  have q1: "q ?s = w ?s \<longrightarrow> q (mb (mp_queue_command X cm_exec value flag m)) = bump N (w ?s)"
    using len wN cp nxw
    by (simp add: mp_queue_command_def g mp_commit_write_buffer_def Let_def)
  have mem1: "mem (mp_queue_command X cm_exec value flag m) = mem m"
    by (simp add: mp_queue_command_def g mp_commit_write_buffer_def Let_def)
  show ?thesis
    unfolding Let_def
    using q1 by (simp add: blk mem1 mp_runtime_command_def Let_def split_beta)
qed

theorem C6_queue_command_copies_witness:
  "ring_ok 4 (mb run_planner) \<and> q (mb run_planner) = w (mb run_planner) \<and>
   buffer_state (bf (mb run_planner) ! w (mb run_planner)) = MP_BUFFER_EMPTY \<and>
   value_vector (bf (mb (mp_queue_command logging 7 1 0 run_planner)) ! 0) =
     [10, 20, 30, 40, 50, 60] \<and>
   flag_vector (bf (mb (mp_queue_command logging 7 1 0 run_planner)) ! 0) =
     [0, 10, 20, 30, 40, 50] \<and>
   buffer_state (bf (mb (mp_queue_command logging 7 1 0 run_planner)) ! 0) = MP_BUFFER_QUEUED \<and>
   (\<exists>m2. mp_runtime_command logging 0
            ((mp_queue_command logging 7 1 0 run_planner)\<lparr>mem := (\<lambda>a. 0)\<rparr>) = Some (STAT_OK, m2) \<and>
          ext m2 = [RequestExec, CmCall 7 [10, 20, 30, 40, 50, 60] [0, 10, 20, 30, 40, 50], CycleEnd])"
proof -
  have a: "ring_ok 4 (mb run_planner)" by code_simp
  have b: "q (mb run_planner) = w (mb run_planner)" by code_simp
  have c: "buffer_state (bf (mb run_planner) ! w (mb run_planner)) = MP_BUFFER_EMPTY" by code_simp
  have d: "w (mb run_planner) = 0" by code_simp
  have v: "map (\<lambda>axis. mem run_planner (1 + axis)) [0..<AXES] = [10, 20, 30, 40, 50, 60]"
    "map (\<lambda>axis. mem run_planner (0 + axis)) [0..<AXES] = [0, 10, 20, 30, 40, 50]"
    by code_simp+
  have e: "ext (mp_queue_command logging 7 1 0 run_planner) = [RequestExec]" by code_simp
  have f: "fst (mp_free_run_buffer (mb (mp_queue_command logging 7 1 0 run_planner)))" by code_simp
  have l: "cm_cycle_end logging = (\<lambda>e. e @ [CycleEnd])"
    "cm_call logging = (\<lambda>f values flags e. e @ [CmCall f values flags])"
    by (simp_all add: logging_def)
  from C6_queue_command_copies [OF a c, of logging 7 1 0, unfolded Let_def d v e]
  have "value_vector (bf (mb (mp_queue_command logging 7 1 0 run_planner)) ! 0) =
          [10, 20, 30, 40, 50, 60]"
    "flag_vector (bf (mb (mp_queue_command logging 7 1 0 run_planner)) ! 0) =
          [0, 10, 20, 30, 40, 50]"
    "q (mb run_planner) = 0 \<longrightarrow>
       buffer_state (bf (mb (mp_queue_command logging 7 1 0 run_planner)) ! 0) = MP_BUFFER_QUEUED"
    "\<exists>m2. mp_runtime_command logging 0
            ((mp_queue_command logging 7 1 0 run_planner)\<lparr>mem := (\<lambda>a. 0)\<rparr>) = Some (STAT_OK, m2) \<and>
          ext m2 = (if fst (mp_free_run_buffer (mb (mp_queue_command logging 7 1 0 run_planner)))
                    then cm_cycle_end logging else (\<lambda>e. e))
                     (cm_call logging 7 [10, 20, 30, 40, 50, 60] [0, 10, 20, 30, 40, 50] [RequestExec])"
    by blast+
  with a b c d f l show ?thesis by simp
qed

text \<open>
  C7. When \<^verbatim>\<open>mp_get_write_buffer\<close> returns null, \<^verbatim>\<open>mp_queue_command\<close> and \<^verbatim>\<open>mp_dwell\<close> call
  \<^verbatim>\<open>cm_hard_alarm\<close> once, with \<^verbatim>\<open>STAT_BUFFER_FULL_FATAL\<close>, and return: nothing of the planner
  has changed (the pool least of all), no commit was made, and \<^verbatim>\<open>mp_dwell\<close> returns the
  status that the alarm returned.
\<close>

theorem C7_buffer_full_fatal:
  assumes "fst (mp_get_write_buffer (mb m)) = None"
  shows "mp_queue_command X cm_exec value flag m =
           m\<lparr>ext := snd (cm_hard_alarm X STAT_BUFFER_FULL_FATAL (ext m))\<rparr> \<and>
         mb (mp_queue_command X cm_exec value flag m) = mb m \<and>
         mp_dwell X seconds m =
           (fst (cm_hard_alarm X STAT_BUFFER_FULL_FATAL (ext m)),
            m\<lparr>ext := snd (cm_hard_alarm X STAT_BUFFER_FULL_FATAL (ext m))\<rparr>) \<and>
         mb (snd (mp_dwell X seconds m)) = mb m"
proof -
  from assms have "mp_get_write_buffer (mb m) = (None, mb m)"
    by (auto simp: mp_get_write_buffer_def Let_def split: if_splits)
  then show ?thesis
    by (simp add: mp_queue_command_def mp_dwell_def split_beta)
qed

theorem C7_buffer_full_fatal_witness:
  "fst (mp_get_write_buffer (mb run_planner_full)) = None \<and>
   mp_queue_command logging 7 0 6 run_planner_full =
     run_planner_full\<lparr>ext := [HardAlarm STAT_BUFFER_FULL_FATAL]\<rparr> \<and>
   mp_dwell logging 2 run_planner_full =
     (STAT_BUFFER_FULL_FATAL, run_planner_full\<lparr>ext := [HardAlarm STAT_BUFFER_FULL_FATAL]\<rparr>)"
proof -
  have a: "fst (mp_get_write_buffer (mb run_planner_full)) = None" by code_simp
  have b: "cm_hard_alarm logging STAT_BUFFER_FULL_FATAL (ext run_planner_full) =
      (STAT_BUFFER_FULL_FATAL, [HardAlarm STAT_BUFFER_FULL_FATAL])"
    by (simp add: logging_def run_planner_full_def run_planner_def)
  from C7_buffer_full_fatal [OF a, of logging 7 0 6 2] a b show ?thesis by simp
qed

lemma map_upd_below:
  "(map (\<lambda>k. if k < n then g k else xs ! k) [0..<length xs])[n := g n] =
   map (\<lambda>k. if k < Suc n then g k else xs ! k) [0..<length xs]"
  by (rule nth_equalityI) (auto simp: nth_list_update less_Suc_eq)

lemma map_upd_below_zero:
  "(map (\<lambda>k. if k < n then 0 else xs ! k) [0..<length xs])[n := 0] =
   map (\<lambda>k. if k < Suc n then 0 else xs ! k) [0..<length xs]"
  by (rule nth_equalityI) (auto simp: nth_list_update less_Suc_eq)

lemma foldl_set_steps_motor:
  fixes m :: "('f::zero, 'c, 'e) planner" and X and sp
  defines "F \<equiv> \<lambda>n. foldl (set_steps_motor X sp) m [0..<n]"
  shows "target_steps (mr (F n)) =
           map (\<lambda>k. if k < n then sp ! k else target_steps (mr m) ! k)
             [0..<length (target_steps (mr m))] \<and>
         position_steps (mr (F n)) =
           map (\<lambda>k. if k < n then sp ! k else position_steps (mr m) ! k)
             [0..<length (position_steps (mr m))] \<and>
         commanded_steps (mr (F n)) =
           map (\<lambda>k. if k < n then sp ! k else commanded_steps (mr m) ! k)
             [0..<length (commanded_steps (mr m))] \<and>
         following_error (mr (F n)) =
           map (\<lambda>k. if k < n then 0 else following_error (mr m) ! k)
             [0..<length (following_error (mr m))] \<and>
         corrected_steps (F n) =
           map (\<lambda>k. if k < n then 0 else corrected_steps m ! k)
             [0..<length (corrected_steps m)] \<and>
         ext (F n) = foldl (\<lambda>e k. en_set_encoder_steps X k (sp ! k) e) (ext m) [0..<n] \<and>
         position (mr (F n)) = position (mr m) \<and> mb (F n) = mb m"
proof (induction n)
  case 0
  show ?case by (simp add: F_def map_nth)
next
  case (Suc n)
  have step: "F (Suc n) = set_steps_motor X sp (F n) n" by (simp add: F_def)
  from Suc show ?case
    unfolding step set_steps_motor_def by (simp add: map_upd_below map_upd_below_zero)
qed

text \<open>
  C8. After \<^verbatim>\<open>mp_set_steps_to_runtime_position\<close> the target, position and commanded steps
  of every motor are the component for that motor of \<^verbatim>\<open>ik_kinematics\<close> applied to the
  runtime position, the following error and the corrected steps of every motor are 0
  whatever they were, and \<^verbatim>\<open>en_set_encoder_steps\<close> has been called for every motor, in
  turn, with that same number of steps.
\<close>

theorem C8_set_steps_to_runtime_position:
  fixes m :: "('f::zero, 'c, 'e) planner"
  assumes "MOTORS \<le> 255"
    and "length (ik_kinematics X (position (mr m))) = MOTORS"
    and "length (target_steps (mr m)) = MOTORS" and "length (position_steps (mr m)) = MOTORS"
    and "length (commanded_steps (mr m)) = MOTORS" and "length (following_error (mr m)) = MOTORS"
    and "length (corrected_steps m) = MOTORS"
  shows "(let steps = ik_kinematics X (position (mr m));
              m' = mp_set_steps_to_runtime_position X MOTORS m
          in (\<forall>motor<MOTORS.
                target_steps (mr m') ! motor = steps ! motor \<and>
                position_steps (mr m') ! motor = steps ! motor \<and>
                commanded_steps (mr m') ! motor = steps ! motor \<and>
                following_error (mr m') ! motor = 0 \<and>
                corrected_steps m' ! motor = 0) \<and>
             target_steps (mr m') = steps \<and> position_steps (mr m') = steps \<and>
             commanded_steps (mr m') = steps \<and>
             following_error (mr m') = replicate MOTORS 0 \<and>
             corrected_steps m' = replicate MOTORS 0 \<and>
             ext m' = foldl (\<lambda>e motor. en_set_encoder_steps X motor (steps ! motor) e)
                        (ext m) [0..<MOTORS] \<and>
             position (mr m') = position (mr m) \<and> mb m' = mb m)"
proof -
  let ?sp = "ik_kinematics X (position (mr m))"
  let ?m' = "mp_set_steps_to_runtime_position X MOTORS m"
  have m': "foldl (set_steps_motor X ?sp) m [0..<MOTORS] = ?m'"
    by (simp add: mp_set_steps_to_runtime_position_def)
  note L = foldl_set_steps_motor [of X ?sp m MOTORS, unfolded m']
  have sp: "map (\<lambda>k. if k < MOTORS then ?sp ! k else xs ! k) [0..<MOTORS] = ?sp" for xs
    using assms(2) by (simp add: list_eq_iff_nth_eq)
  have z: "map (\<lambda>k. if k < MOTORS then 0 else xs ! k) [0..<MOTORS] = replicate MOTORS 0"
    for xs :: "'a::zero list"
    by (simp add: list_eq_iff_nth_eq)
  have t: "target_steps (mr ?m') = ?sp" using L assms(3) sp by simp
  have p: "position_steps (mr ?m') = ?sp" using L assms(4) sp by simp
  have c: "commanded_steps (mr ?m') = ?sp" using L assms(5) sp by simp
  have f: "following_error (mr ?m') = replicate MOTORS 0" using L assms(6) z by simp
  have k: "corrected_steps ?m' = replicate MOTORS 0" using L assms(7) z by simp
  have e: "ext ?m' = foldl (\<lambda>e motor. en_set_encoder_steps X motor (?sp ! motor) e)
                        (ext m) [0..<MOTORS]"
    and r: "position (mr ?m') = position (mr m)" "mb ?m' = mb m"
    using L by simp_all
  show ?thesis
    unfolding Let_def t p c f k r by (simp add: e)
qed

theorem C8_set_steps_to_runtime_position_witness:
  "(4::nat) \<le> 255 \<and>
   length (ik_kinematics logging (position (mr run_planner))) = 4 \<and>
   length (target_steps (mr run_planner)) = 4 \<and> length (position_steps (mr run_planner)) = 4 \<and>
   length (commanded_steps (mr run_planner)) = 4 \<and> length (following_error (mr run_planner)) = 4 \<and>
   length (corrected_steps run_planner) = 4 \<and>
   target_steps (mr (mp_set_steps_to_runtime_position logging 4 run_planner)) = [2, 4, 6, 8] \<and>
   position_steps (mr (mp_set_steps_to_runtime_position logging 4 run_planner)) = [2, 4, 6, 8] \<and>
   commanded_steps (mr (mp_set_steps_to_runtime_position logging 4 run_planner)) = [2, 4, 6, 8] \<and>
   following_error (mr (mp_set_steps_to_runtime_position logging 4 run_planner)) = [0, 0, 0, 0] \<and>
   corrected_steps (mp_set_steps_to_runtime_position logging 4 run_planner) = [0, 0, 0, 0] \<and>
   ext (mp_set_steps_to_runtime_position logging 4 run_planner) =
     [EncoderSet 0 2, EncoderSet 1 4, EncoderSet 2 6, EncoderSet 3 8]"
proof -
  have a: "(4::nat) \<le> 255" by simp
  have b: "length (ik_kinematics logging (position (mr run_planner))) = 4"
    "length (target_steps (mr run_planner)) = 4" "length (position_steps (mr run_planner)) = 4"
    "length (commanded_steps (mr run_planner)) = 4" "length (following_error (mr run_planner)) = 4"
    "length (corrected_steps run_planner) = 4"
    by code_simp+
  have c: "ik_kinematics logging (position (mr run_planner)) = [2, 4, 6, 8]" by code_simp
  have d: "foldl (\<lambda>e motor. en_set_encoder_steps logging motor ([2, 4, 6, 8] ! motor) e)
             (ext run_planner) [0..<4] =
           [EncoderSet 0 2, EncoderSet 1 4, EncoderSet 2 6, EncoderSet 3 8]"
    by code_simp
  have e: "replicate 4 (0::int) = [0, 0, 0, 0]" by code_simp
  from C8_set_steps_to_runtime_position [OF a b, unfolded Let_def c d e] a b
  show ?thesis by simp
qed

section \<open>The claim about the map from axes to motors\<close>

lemma map_axis_find:
  "map_axis motor_get_axis axis motors motor_map =
     (case find (\<lambda>motor. motor_get_axis motor = int axis) motors of
        None \<Rightarrow> motor_map
      | Some motor \<Rightarrow> motor_map[axis := int motor])"
  by (induction motors) simp_all

lemma length_map_axis: "length (map_axis motor_get_axis axis motors motor_map) = length motor_map"
  by (simp add: map_axis_find split: option.splits)

lemma foldl_map_axis_nth:
  assumes "distinct as" "a < length motor_map"
  shows "foldl (\<lambda>mm axis. map_axis motor_get_axis axis motors mm) motor_map as ! a =
     (if a \<in> set as
      then (case find (\<lambda>motor. motor_get_axis motor = int a) motors of
              None \<Rightarrow> motor_map ! a
            | Some motor \<Rightarrow> int motor)
      else motor_map ! a)"
  using assms
proof (induction as arbitrary: motor_map)
  case Nil
  then show ?case by simp
next
  case (Cons x as)
  let ?mm = "map_axis motor_get_axis x motors motor_map"
  have len: "a < length ?mm" using Cons.prems(2) by (simp add: length_map_axis)
  have d: "distinct as" and x: "x \<notin> set as" using Cons.prems(1) by simp_all
  have "foldl (\<lambda>mm axis. map_axis motor_get_axis axis motors mm) motor_map (x # as) ! a =
        foldl (\<lambda>mm axis. map_axis motor_get_axis axis motors mm) ?mm as ! a"
    by simp
  also have "\<dots> = (if a \<in> set as
      then (case find (\<lambda>motor. motor_get_axis motor = int a) motors of
              None \<Rightarrow> ?mm ! a | Some motor \<Rightarrow> int motor)
      else ?mm ! a)"
    by (rule Cons.IH [OF d len])
  also have "\<dots> = (if a \<in> set (x # as)
      then (case find (\<lambda>motor. motor_get_axis motor = int a) motors of
              None \<Rightarrow> motor_map ! a | Some motor \<Rightarrow> int motor)
      else motor_map ! a)"
  proof -
    have "x \<noteq> a" if "a \<in> set as" using x that by auto
    then show ?thesis
      using Cons.prems(2) by (auto simp: map_axis_find nth_list_update split: option.splits)
  qed
  finally show ?case .
qed

lemma axis_map_motors_nth:
  assumes "axis < AXES" "length motor_map = AXES"
  shows "axis_map_motors MOTORS motor_get_axis motor_map ! axis =
     (case find (\<lambda>motor. motor_get_axis motor = int axis) [0..<MOTORS] of
        None \<Rightarrow> motor_map ! axis
      | Some motor \<Rightarrow> int motor)"
  using assms foldl_map_axis_nth [of "[0..<AXES]" axis motor_map motor_get_axis "[0..<MOTORS]"]
  by (simp add: axis_map_motors_def)

text \<open>
  C10. \<^verbatim>\<open>axis_map_motors\<close> writes \<^verbatim>\<open>motor_map[axis]\<close> only for an axis that some motor is
  configured for, and then it writes the number of the first such motor. For an axis
  without a motor the entry keeps its value, and so do \<^verbatim>\<open>axis_get_motor\<close> and the getters
  that read the map through it. Started from the initialiser, an axis without a motor
  reads -1; after a change of the configuration that takes the motor away from an axis,
  the axis still reads the motor it had.
\<close>

theorem C10_axis_map_motors_never_unmaps:
  assumes "axis < AXES" and "length motor_map = AXES"
    and "\<forall>motor<MOTORS. motor_get_axis motor \<noteq> int axis"
  shows "axis_map_motors MOTORS motor_get_axis motor_map ! axis = motor_map ! axis \<and>
         axis_get_motor (axis_map_motors MOTORS motor_get_axis motor_map) axis =
           axis_get_motor motor_map axis \<and>
         axis_get_velocity_max scaled velocity_max
             (axis_map_motors MOTORS motor_get_axis motor_map) axis =
           axis_get_velocity_max scaled velocity_max motor_map axis \<and>
         axis_is_enabled motor_is_enabled fp_ZERO scaled velocity_max
             (axis_map_motors MOTORS motor_get_axis motor_map) axis =
           axis_is_enabled motor_is_enabled fp_ZERO scaled velocity_max motor_map axis \<and>
         (\<forall>a<AXES. axis_map_motors MOTORS motor_get_axis motor_map ! a = motor_map ! a \<or>
            (\<exists>motor<MOTORS. motor_get_axis motor = int a \<and>
               axis_map_motors MOTORS motor_get_axis motor_map ! a = int motor)) \<and>
         axis_get_motor (axis_map_motors 4 motors_on_yzab motor_map_init) 0 = - 1 \<and>
         axis_get_motor (axis_map_motors 4 motors_on_xyza motor_map_init) 0 = 0 \<and>
         axis_get_motor
           (axis_map_motors 4 motors_on_yzab (axis_map_motors 4 motors_on_xyza motor_map_init)) 0 = 0"
proof -
  have none: "find (\<lambda>motor. motor_get_axis motor = int axis) [0..<MOTORS] = None"
    using assms(3) by (simp add: find_None_iff)
  have keep: "axis_map_motors MOTORS motor_get_axis motor_map ! axis = motor_map ! axis"
    using axis_map_motors_nth [OF assms(1,2), of MOTORS motor_get_axis] none by simp
  have wr: "axis_map_motors MOTORS motor_get_axis motor_map ! a = motor_map ! a \<or>
            (\<exists>motor<MOTORS. motor_get_axis motor = int a \<and>
               axis_map_motors MOTORS motor_get_axis motor_map ! a = int motor)"
    if "a < AXES" for a
  proof (cases "find (\<lambda>motor. motor_get_axis motor = int a) [0..<MOTORS]")
    case None
    then show ?thesis using axis_map_motors_nth [OF that assms(2), of MOTORS motor_get_axis] by simp
  next
    case (Some motor)
    then have "motor < MOTORS \<and> motor_get_axis motor = int a"
      by (auto simp: find_Some_iff)
    then show ?thesis
      using axis_map_motors_nth [OF that assms(2), of MOTORS motor_get_axis] Some by auto
  qed
  have ex: "axis_get_motor (axis_map_motors 4 motors_on_yzab motor_map_init) 0 = - 1"
    "axis_get_motor (axis_map_motors 4 motors_on_xyza motor_map_init) 0 = 0"
    "axis_get_motor
       (axis_map_motors 4 motors_on_yzab (axis_map_motors 4 motors_on_xyza motor_map_init)) 0 = 0"
    by code_simp+
  show ?thesis
    using keep wr ex by (simp add: axis_get_motor_def axis_get_velocity_max_def axis_is_enabled_def)
qed

theorem C10_axis_map_motors_never_unmaps_witness:
  "(0::nat) < AXES \<and> length (axis_map_motors 4 motors_on_xyza motor_map_init) = AXES \<and>
   motors_on_yzab 0 \<noteq> int 0 \<and> motors_on_yzab 1 \<noteq> int 0 \<and>
   motors_on_yzab 2 \<noteq> int 0 \<and> motors_on_yzab 3 \<noteq> int 0 \<and>
   axis_map_motors 4 motors_on_xyza motor_map_init = [0, 1, 2, 3, - 1, - 1] \<and>
   axis_map_motors 4 motors_on_yzab (axis_map_motors 4 motors_on_xyza motor_map_init) ! 0 = 0"
proof -
  have a: "(0::nat) < AXES" by (simp add: AXES_def)
  have m: "axis_map_motors 4 motors_on_xyza motor_map_init = [0, 1, 2, 3, - 1, - 1]" by code_simp
  have b: "length (axis_map_motors 4 motors_on_xyza motor_map_init) = AXES"
    by (simp add: m AXES_def)
  have c: "\<forall>motor<4. motors_on_yzab motor \<noteq> int 0" by (simp add: motors_on_yzab_def)
  from C10_axis_map_motors_never_unmaps [OF a b c,
      where scaled = "\<lambda>x::int. x" and velocity_max = "[]"
        and motor_is_enabled = "\<lambda>motor. True" and fp_ZERO = "\<lambda>x. False"]
  have "axis_map_motors 4 motors_on_yzab (axis_map_motors 4 motors_on_xyza motor_map_init) ! 0 =
      axis_map_motors 4 motors_on_xyza motor_map_init ! 0"
    by blast
  with a b c m show ?thesis by simp
qed

section \<open>The claim about the length of a vector\<close>


















end
